theory Spec2Isabelle
  imports Complex_Main "HOL-Library.Log_Nat"
begin

section \<open>JavaScript numbers and their string conversions\<close>

text \<open>
  The page keeps its form draft as strings and its records as JavaScript Numbers.
  A Number is an IEEE 754 binary64 value. It is modelled by \<open>NaN\<close>, the two
  infinities, and a finite value given by the exact rational it denotes. The two
  zeros are identified: the page only compares a number with \<open>0\<close>, rounds it up and
  prints it, and \<open>-0\<close> behaves like \<open>+0\<close> in all three once it is not positive.
\<close>

datatype jsnum = NaN | PosInf | NegInf | Fin rat

definition isNaN :: "jsnum \<Rightarrow> bool" where
  "isNaN x = (x = NaN)"

text \<open>The relational operator \<open>x <= y\<close> on Numbers: false as soon as one side is NaN.\<close>

fun js_le :: "jsnum \<Rightarrow> jsnum \<Rightarrow> bool" where
  "js_le NaN y = False"
| "js_le x NaN = False"
| "js_le NegInf y = True"
| "js_le x PosInf = True"
| "js_le PosInf y = False"
| "js_le x NegInf = False"
| "js_le (Fin a) (Fin b) = (a \<le> b)"

fun js_neg :: "jsnum \<Rightarrow> jsnum" where
  "js_neg NaN = NaN"
| "js_neg PosInf = NegInf"
| "js_neg NegInf = PosInf"
| "js_neg (Fin q) = Fin (- q)"

text \<open>\<open>Math.ceil\<close>: NaN and the infinities are returned as they are.\<close>

fun js_ceil :: "jsnum \<Rightarrow> jsnum" where
  "js_ceil (Fin q) = Fin (of_int \<lceil>q\<rceil>)"
| "js_ceil x = x"

subsection \<open>Rounding a real value to binary64\<close>

text \<open>
  \<open>dexp b x\<close> is the position of the leading base-\<open>b\<close> digit of a positive \<open>x\<close>: the
  integer \<open>n\<close> with \<open>b ^ (n - 1) \<le> x < b ^ n\<close>.
\<close>

definition dexp :: "nat \<Rightarrow> rat \<Rightarrow> int" where
  "dexp b x = (if 1 \<le> x then int (floorlog b (nat \<lfloor>x\<rfloor>))
               else 1 - int (floorlog b (nat (\<lceil>1 / x\<rceil> - 1))))"

text \<open>\<open>ipow b k\<close> is \<open>b\<close> to the integer power \<open>k\<close>, as a rational.\<close>

definition ipow :: "nat \<Rightarrow> int \<Rightarrow> rat" where
  "ipow b k = (if 0 \<le> k then of_int (int b ^ nat k) else 1 / of_int (int b ^ nat (- k)))"

definition round_half_even :: "rat \<Rightarrow> int" where
  "round_half_even q = (let f = \<lfloor>q\<rfloor>; r = q - of_int f in
     if r < 1 / 2 then f else if 1 / 2 < r then f + 1 else if even f then f else f + 1)"

text \<open>
  The Number value of a positive real: the nearest multiple of the unit in the last
  place (53 significant bits, exponent at least -1022, so subnormals lose bits), ties to
  the even significand, and \<open>+Infinity\<close> once the rounded value reaches \<open>2 ^ 1024\<close>.
\<close>

definition round_pos :: "rat \<Rightarrow> jsnum" where
  "round_pos q = (let e = max (dexp 2 q - 1) (- 1022);
                      ulp = ipow 2 (e - 52);
                      v = of_int (round_half_even (q / ulp)) * ulp
                  in if ipow 2 1024 \<le> v then PosInf else Fin v)"

definition to_number :: "rat \<Rightarrow> jsnum" where
  "to_number q = (if q = 0 then Fin 0
                  else if 0 < q then round_pos q
                  else js_neg (round_pos (- q)))"

subsection \<open>\<open>parseFloat\<close>\<close>

text \<open>
  Strings are lists of 8-bit characters (code units 0 to 255). \<open>parseFloat\<close> drops
  leading white space and reads the longest prefix that is a \<open>StrDecimalLiteral\<close>:
  an optional sign, then \<open>Infinity\<close>, or digits with an optional fraction and an
  optional exponent. What follows the prefix is ignored; with no such prefix the result
  is \<open>NaN\<close>. The literal's mathematical value is rounded to binary64; the value
  rounded is the exact one, whatever the number of digits, as the engines in use do.
\<close>

definition is_ws :: "char \<Rightarrow> bool" where
  "is_ws c = ((of_char c :: nat) \<in> {9, 10, 11, 12, 13, 32, 160})"

definition is_digit :: "char \<Rightarrow> bool" where
  "is_digit c = (48 \<le> (of_char c :: nat) \<and> (of_char c :: nat) \<le> 57)"

definition digit_val :: "char \<Rightarrow> nat" where
  "digit_val c = of_char c - 48"

definition digits_val :: "string \<Rightarrow> nat" where
  "digits_val ds = foldl (\<lambda>a c. 10 * a + digit_val c) 0 ds"

text \<open>
  The exponent part at the head of \<open>r\<close>: \<open>e\<close> or \<open>E\<close>, an optional sign and at least
  one digit. Without digits the exponent indicator is not part of the literal.
\<close>

definition parse_exponent :: "string \<Rightarrow> int" where
  "parse_exponent r =
     (case r of
        [] \<Rightarrow> 0
      | c # r1 \<Rightarrow>
          if c = CHR ''e'' \<or> c = CHR ''E'' then
            (case r1 of
               [] \<Rightarrow> 0
             | g # r2 \<Rightarrow>
                 if g = CHR ''+'' then int (digits_val (takeWhile is_digit r2))
                 else if g = CHR ''-'' then - int (digits_val (takeWhile is_digit r2))
                 else int (digits_val (takeWhile is_digit r1)))
          else 0)"

text \<open>
  The mathematical value of the longest unsigned decimal literal at the head of \<open>u\<close>
  (\<open>Infinity\<close> apart), or \<open>None\<close> when there is no digit to read.
\<close>

definition parse_unsigned :: "string \<Rightarrow> rat option" where
  "parse_unsigned u =
     (let ip = takeWhile is_digit u; r = dropWhile is_digit u in
      case r of
        [] \<Rightarrow> if ip = [] then None else Some (of_nat (digits_val ip))
      | c # r1 \<Rightarrow>
          if c = CHR ''.'' then
            (let fp = takeWhile is_digit r1; r2 = dropWhile is_digit r1 in
             if ip = [] \<and> fp = [] then None
             else Some (of_nat (digits_val (ip @ fp))
                        * ipow 10 (parse_exponent r2 - int (length fp))))
          else if ip = [] then None
          else Some (of_nat (digits_val ip) * ipow 10 (parse_exponent r)))"

definition parseFloat :: "string \<Rightarrow> jsnum" where
  "parseFloat input =
     (let t = dropWhile is_ws input;
          neg = (take 1 t = ''-'');
          u = (if take 1 t = ''-'' \<or> take 1 t = ''+'' then drop 1 t else t)
      in if take 8 u = ''Infinity'' then (if neg then NegInf else PosInf)
         else case parse_unsigned u of
                None \<Rightarrow> NaN
              | Some q \<Rightarrow> if neg then js_neg (to_number q) else to_number q)"

subsection \<open>\<open>Number.prototype.toString\<close>\<close>

definition digit_char :: "nat \<Rightarrow> char" where
  "digit_char d = char_of (48 + d)"

text \<open>The last \<open>k\<close> decimal digits of \<open>s\<close>, most significant first.\<close>

fun digits_of :: "nat \<Rightarrow> nat \<Rightarrow> string" where
  "digits_of 0 s = []"
| "digits_of (Suc k) s = digits_of k (s div 10) @ [digit_char (s mod 10)]"

definition dec_string :: "nat \<Rightarrow> string" where
  "dec_string n = digits_of (max 1 (floorlog 10 n)) n"

text \<open>
  For a positive Number \<open>x\<close> the printed digits are integers \<open>k\<close>, \<open>s\<close>, \<open>n\<close> with
  \<open>10 ^ (k - 1) \<le> s < 10 ^ k\<close> such that \<open>s * 10 ^ (n - k)\<close> rounds to \<open>x\<close>, with \<open>k\<close> as
  small as possible and, among the \<open>s\<close> that do, the one closest to \<open>x\<close> (the even one
  on a tie). For a given \<open>k\<close> only the two integers around \<open>x / 10 ^ (n - k)\<close> can be
  closest, so \<open>candidate\<close> tests those.
\<close>

definition candidate :: "rat \<Rightarrow> nat \<Rightarrow> (nat \<times> nat \<times> int) option" where
  "candidate x k =
     (let n = dexp 10 x;
          p = n - int k;
          y = x / ipow 10 p;
          lo = \<lfloor>y\<rfloor>;
          hi = lo + 1;
          ok_lo = (round_pos (of_int lo * ipow 10 p) = Fin x);
          ok_hi = (round_pos (of_int hi * ipow 10 p) = Fin x);
          d_lo = y - of_int lo;
          d_hi = of_int hi - y
      in if ok_hi \<and> (\<not> ok_lo \<or> d_hi < d_lo \<or> (d_hi = d_lo \<and> odd lo)) then
           (if hi = 10 ^ k then Some (k, 10 ^ (k - 1), n + 1) else Some (k, nat hi, n))
         else if ok_lo then Some (k, nat lo, n)
         else None)"

text \<open>
  The search for the least \<open>k\<close>. A binary64 value has an exact decimal expansion of
  fewer than 1400 digits, so the bound is never reached on a Number.
\<close>

fun shortest_from :: "nat \<Rightarrow> rat \<Rightarrow> nat \<Rightarrow> (nat \<times> nat \<times> int) option" where
  "shortest_from 0 x k = None"
| "shortest_from (Suc fuel) x k =
     (case candidate x k of
        Some r \<Rightarrow> Some r
      | None \<Rightarrow> shortest_from fuel x (Suc k))"

definition shortest :: "rat \<Rightarrow> (nat \<times> nat \<times> int) option" where
  "shortest x = shortest_from 1400 x 1"

definition format_digits :: "nat \<Rightarrow> nat \<Rightarrow> int \<Rightarrow> string" where
  "format_digits k s n =
     (let ds = digits_of k s in
      if - 5 \<le> n \<and> n \<le> 21 then
        (if int k \<le> n then ds @ replicate (nat (n - int k)) CHR ''0''
         else if 0 < n then take (nat n) ds @ ''.'' @ drop (nat n) ds
         else ''0.'' @ replicate (nat (- n)) CHR ''0'' @ ds)
      else
        (let e = n - 1;
             sg = (if e < 0 then ''-'' else ''+'');
             d = dec_string (nat \<bar>e\<bar>)
         in if k = 1 then ds @ ''e'' @ sg @ d
            else take 1 ds @ ''.'' @ drop 1 ds @ ''e'' @ sg @ d))"

definition pos_toString :: "rat \<Rightarrow> string" where
  "pos_toString x = (case shortest x of
                       None \<Rightarrow> []
                     | Some (k, s, n) \<Rightarrow> format_digits k s n)"

fun toString :: "jsnum \<Rightarrow> string" where
  "toString NaN = ''NaN''"
| "toString PosInf = ''Infinity''"
| "toString NegInf = ''-Infinity''"
| "toString (Fin q) = (if q = 0 then ''0''
                       else if q < 0 then ''-'' @ pos_toString (- q)
                       else pos_toString q)"

section \<open>The page state\<close>

text \<open>
  \<open>Shipment\<close> and \<open>ShipmentFormData\<close> are the two interfaces of
  \<open>types/shipment.ts\<close>; a suffix keeps their field names apart (\<open>_s\<close> for the
  record, \<open>_f\<close> for the form draft).
\<close>

record Shipment =
  id_s :: string
  length_s :: jsnum
  width_s :: jsnum
  height_s :: jsnum
  weight_s :: jsnum
  reference_s :: string

record ShipmentFormData =
  length_f :: string
  width_f :: string
  height_f :: string
  weight_f :: string
  reference_f :: string

text \<open>The three \<open>useState\<close> cells of \<open>Home\<close>; \<open>editingId\<close> is \<open>string | null\<close>.\<close>

record state =
  shipments :: "Shipment list"
  editingId :: "string option"
  formData :: ShipmentFormData

text \<open>What a handler does besides updating the state: toasts and the file download.\<close>

datatype effect =
  Toast_error string
| Toast_success string
| Toast_info string
| Download string string

definition empty_form :: ShipmentFormData where
  "empty_form = \<lparr>length_f = [], width_f = [], height_f = [], weight_f = [], reference_f = []\<rparr>"

definition initial :: state where
  "initial = \<lparr>shipments = [], editingId = None, formData = empty_form\<rparr>"

text \<open>
  \<open>editingId\<close> is tested for truthiness (\<open>editingId || nanoid()\<close>, \<open>if (editingId)\<close>,
  \<open>editingId && ...\<close>): \<open>null\<close> and the empty string are falsy.
\<close>

definition truthy :: "string option \<Rightarrow> bool" where
  "truthy e = (case e of None \<Rightarrow> False | Some i \<Rightarrow> i \<noteq> [])"

datatype field = F_length | F_width | F_height | F_weight | F_reference

fun set_field :: "field \<Rightarrow> string \<Rightarrow> ShipmentFormData \<Rightarrow> ShipmentFormData" where
  "set_field F_length v fd = fd\<lparr>length_f := v\<rparr>"
| "set_field F_width v fd = fd\<lparr>width_f := v\<rparr>"
| "set_field F_height v fd = fd\<lparr>height_f := v\<rparr>"
| "set_field F_weight v fd = fd\<lparr>weight_f := v\<rparr>"
| "set_field F_reference v fd = fd\<lparr>reference_f := v\<rparr>"

definition handleInputChange :: "field \<Rightarrow> string \<Rightarrow> state \<Rightarrow> effect list \<times> state" where
  "handleInputChange f v s = ([], s\<lparr>formData := set_field f v (formData s)\<rparr>)"

text \<open>\<open>validateForm\<close>: the returned boolean, and the toast shown when it is false.\<close>

definition validateForm :: "ShipmentFormData \<Rightarrow> bool \<times> effect list" where
  "validateForm fd =
     (if length_f fd = [] \<or> width_f fd = [] \<or> height_f fd = [] \<or> weight_f fd = [] then
        (False, [Toast_error ''Please fill in all dimension and weight fields''])
      else
        (let l = parseFloat (length_f fd);
             w = parseFloat (width_f fd);
             h = parseFloat (height_f fd);
             wt = parseFloat (weight_f fd)
         in if isNaN l \<or> isNaN w \<or> isNaN h \<or> isNaN wt then
              (False, [Toast_error ''Dimensions and weight must be valid numbers''])
            else if js_le l (Fin 0) \<or> js_le w (Fin 0) \<or> js_le h (Fin 0) \<or> js_le wt (Fin 0) then
              (False, [Toast_error ''Dimensions and weight must be greater than zero''])
            else (True, [])))"

text \<open>
  \<open>handleAddShipment\<close>. \<open>nid\<close> is what \<open>nanoid()\<close> returns when it is called, that
  is, when \<open>editingId\<close> is falsy.
\<close>

definition handleAddShipment :: "string \<Rightarrow> state \<Rightarrow> effect list \<times> state" where
  "handleAddShipment nid s =
     (if \<not> fst (validateForm (formData s)) then (snd (validateForm (formData s)), s)
      else
        (let newShipment =
               \<lparr>id_s = (if truthy (editingId s) then the (editingId s) else nid),
                length_s = js_ceil (parseFloat (length_f (formData s))),
                width_s = js_ceil (parseFloat (width_f (formData s))),
                height_s = js_ceil (parseFloat (height_f (formData s))),
                weight_s = parseFloat (weight_f (formData s)),
                reference_s = reference_f (formData s)\<rparr>
         in if truthy (editingId s) then
              ([Toast_success ''Package updated''],
               s\<lparr>shipments := map (\<lambda>r. if Some (id_s r) = editingId s then newShipment else r)
                                    (shipments s),
                  editingId := None,
                  formData := empty_form\<rparr>)
            else
              ([Toast_success ''Package added''],
               s\<lparr>shipments := shipments s @ [newShipment],
                  formData := empty_form\<rparr>)))"

definition handleEdit :: "Shipment \<Rightarrow> state \<Rightarrow> effect list \<times> state" where
  "handleEdit shipment s =
     ([Toast_info ''Editing package''],
      s\<lparr>formData := \<lparr>length_f = toString (length_s shipment),
                       width_f = toString (width_s shipment),
                       height_f = toString (height_s shipment),
                       weight_f = toString (weight_s shipment),
                       reference_f = reference_s shipment\<rparr>,
         editingId := Some (id_s shipment)\<rparr>)"

definition handleDelete :: "string \<Rightarrow> state \<Rightarrow> effect list \<times> state" where
  "handleDelete i s =
     ([Toast_success ''Package removed''],
      s\<lparr>shipments := filter (\<lambda>r. id_s r \<noteq> i) (shipments s),
         editingId := (if editingId s = Some i then None else editingId s)\<rparr>)"

text \<open>
  \<open>handleGenerateCSV\<close>. \<open>generateCSV\<close> lives in \<open>lib/csv\<close> and is a parameter here, as
  is \<open>now\<close>, the value of \<open>new Date().toISOString()\<close>; \<open>split('T')[0]\<close> keeps what
  precedes the first \<open>T\<close>.
\<close>

definition handleGenerateCSV ::
  "(Shipment list \<Rightarrow> string) \<Rightarrow> string \<Rightarrow> state \<Rightarrow> effect list \<times> state" where
  "handleGenerateCSV generateCSV now s =
     (if length (shipments s) = 0 then
        ([Toast_error ''Add at least one package to generate CSV''], s)
      else
        (let csv = generateCSV (shipments s);
             timestamp = takeWhile (\<lambda>c. c \<noteq> CHR ''T'') now
         in ([Download csv (''fedex_shipments_'' @ timestamp @ ''.csv''),
              Toast_success (''CSV downloaded with '' @ dec_string (length (shipments s))
                             @ '' package'' @ (if 1 < length (shipments s) then ''s'' else []))],
             s)))"

text \<open>\<open>handleClearAll\<close>; \<open>confirmed\<close> is the answer of the \<open>confirm\<close> dialog.\<close>

definition handleClearAll :: "bool \<Rightarrow> state \<Rightarrow> effect list \<times> state" where
  "handleClearAll confirmed s =
     (if length (shipments s) = 0 then ([], s)
      else if confirmed then
        ([Toast_success ''All packages cleared''], s\<lparr>shipments := [], editingId := None\<rparr>)
      else ([], s))"

text \<open>The \<open>onClick\<close> of the Cancel button.\<close>

definition handleCancel :: "state \<Rightarrow> effect list \<times> state" where
  "handleCancel s =
     ([Toast_info ''Editing cancelled''], s\<lparr>editingId := None, formData := empty_form\<rparr>)"

section \<open>Reachable states\<close>

text \<open>
  The user's actions on the page. \<open>Submit nid\<close> carries the identifier \<open>nanoid()\<close>
  would return. Exporting is left out: it does not change the state.
\<close>

datatype event =
  Input field string
| Submit string
| Edit Shipment
| Delete string
| Cancel
| ClearAll bool

fun dispatch :: "event \<Rightarrow> state \<Rightarrow> effect list \<times> state" where
  "dispatch (Input f v) s = handleInputChange f v s"
| "dispatch (Submit nid) s = handleAddShipment nid s"
| "dispatch (Edit r) s = handleEdit r s"
| "dispatch (Delete i) s = handleDelete i s"
| "dispatch Cancel s = handleCancel s"
| "dispatch (ClearAll c) s = handleClearAll c s"

text \<open>
  When an action can happen: a card (with its Edit and Delete buttons) is rendered for
  each record of the list, the Cancel button only while editing, the Clear All button
  only for a non-empty list; and \<open>nanoid()\<close> returns a non-empty identifier that no
  record carries yet.
\<close>

fun enabled :: "event \<Rightarrow> state \<Rightarrow> bool" where
  "enabled (Input f v) s = True"
| "enabled (Submit nid) s =
     (truthy (editingId s) \<or> (nid \<noteq> [] \<and> nid \<notin> set (map id_s (shipments s))))"
| "enabled (Edit r) s = (r \<in> set (shipments s))"
| "enabled (Delete i) s = (i \<in> set (map id_s (shipments s)))"
| "enabled Cancel s = truthy (editingId s)"
| "enabled (ClearAll c) s = (shipments s \<noteq> [])"

inductive reachable :: "state \<Rightarrow> bool" where
  reachable_initial: "reachable initial"
| reachable_step: "reachable s \<Longrightarrow> enabled ev s \<Longrightarrow> reachable (snd (dispatch ev s))"

fun run :: "event list \<Rightarrow> state \<Rightarrow> state" where
  "run [] s = s"
| "run (ev # evs) s = run evs (snd (dispatch ev s))"

fun all_enabled :: "event list \<Rightarrow> state \<Rightarrow> bool" where
  "all_enabled [] s = True"
| "all_enabled (ev # evs) s = (enabled ev s \<and> all_enabled evs (snd (dispatch ev s)))"

text \<open>A Number that is not NaN and not \<open><= 0\<close>: a positive finite value or \<open>+Infinity\<close>.\<close>

fun positive :: "jsnum \<Rightarrow> bool" where
  "positive PosInf = True"
| "positive (Fin q) = (0 < q)"
| "positive x = False"

definition positive_record :: "Shipment \<Rightarrow> bool" where
  "positive_record r =
     (positive (length_s r) \<and> positive (width_s r) \<and> positive (height_s r)
      \<and> positive (weight_s r))"

subsection \<open>What the store holds\<close>

text \<open>
  The positive finite values of binary64: a significand below \<open>2 ^ 53\<close> times a power
  of two between \<open>2 ^ -1074\<close> and \<open>2 ^ 971\<close>.
\<close>

definition binary64 :: "rat \<Rightarrow> bool" where
  "binary64 q \<longleftrightarrow>
     (\<exists>m e. q = of_nat m * ipow 2 e \<and> 0 < m \<and> m < 2 ^ 53 \<and> - 1074 \<le> e \<and> e \<le> 971)"

text \<open>
  A Number is representable when it is NaN, an infinity, zero or plus or minus a binary64
  value; it round-trips when it is positive and \<open>parseFloat\<close> reads it back from its
  \<open>toString\<close>. A record is editable when its identifier is truthy, its numbers
  round-trip and its dimensions are their own ceilings.
\<close>

definition round_trips :: "jsnum \<Rightarrow> bool" where
  "round_trips v \<longleftrightarrow> positive v \<and> parseFloat (toString v) = v"

definition editable :: "Shipment \<Rightarrow> bool" where
  "editable r \<longleftrightarrow>
     id_s r \<noteq> []
     \<and> round_trips (length_s r) \<and> js_ceil (length_s r) = length_s r
     \<and> round_trips (width_s r) \<and> js_ceil (width_s r) = width_s r
     \<and> round_trips (height_s r) \<and> js_ceil (height_s r) = height_s r
     \<and> round_trips (weight_s r)"

fun representable :: "jsnum \<Rightarrow> bool" where
  "representable (Fin v) = (v = 0 \<or> binary64 v \<or> binary64 (- v))"
| "representable x = True"

subsection \<open>What the page can deliver\<close>

text \<open>
  The four numeric fields are inputs of type \<open>number\<close>. The value such an input
  hands to \<open>onChange\<close> is sanitised by the browser: it is the text typed when that
  text is a valid floating-point number (an optional minus sign, digits or a point
  followed by digits or both, an optional exponent with at least one digit) whose value
  is a finite Number, and the empty string otherwise. The reference field is a text
  input and delivers any string.
\<close>

fun is_finite :: "jsnum \<Rightarrow> bool" where
  "is_finite (Fin q) = True"
| "is_finite x = False"


definition valid_exponent :: "string \<Rightarrow> bool" where
  "valid_exponent r =
     (case r of
        [] \<Rightarrow> True
      | c # r1 \<Rightarrow>
          (c = CHR ''e'' \<or> c = CHR ''E'')
          \<and> (let d = (if take 1 r1 = ''-'' \<or> take 1 r1 = ''+'' then drop 1 r1 else r1)
             in d \<noteq> [] \<and> list_all is_digit d))"

definition valid_floating_point :: "string \<Rightarrow> bool" where
  "valid_floating_point v =
     (let u = (if take 1 v = ''-'' then drop 1 v else v);
          ip = takeWhile is_digit u;
          r = dropWhile is_digit u
      in case r of
           [] \<Rightarrow> ip \<noteq> []
         | c # r1 \<Rightarrow>
             if c = CHR ''.'' then
               takeWhile is_digit r1 \<noteq> [] \<and> valid_exponent (dropWhile is_digit r1)
             else ip \<noteq> [] \<and> valid_exponent r)"

definition number_input_value :: "string \<Rightarrow> bool" where
  "number_input_value v \<longleftrightarrow> v = [] \<or> (valid_floating_point v \<and> is_finite (parseFloat v))"

text \<open>
  What can happen on the page, whatever \<open>nanoid()\<close> returns: a numeric field
  delivers a number input's value, and Edit is clicked on a card of the list.
\<close>

fun possible :: "event \<Rightarrow> state \<Rightarrow> bool" where
  "possible (Input f v) s = (f = F_reference \<or> number_input_value v)"
| "possible (Edit r) s = (r \<in> set (shipments s))"
| "possible ev s = True"

fun deliverable :: "event list \<Rightarrow> state \<Rightarrow> bool" where
  "deliverable [] s = True"
| "deliverable (ev # evs) s = (possible ev s \<and> deliverable evs (snd (dispatch ev s)))"

text \<open>
  \<open>nanoid()\<close> is called only by a valid submit while not editing; its result is
  fresh when no stored record carries it.
\<close>

fun fresh_id :: "event \<Rightarrow> state \<Rightarrow> bool" where
  "fresh_id (Submit nid) s =
     (\<not> fst (validateForm (formData s)) \<or> truthy (editingId s)
      \<or> nid \<notin> set (map id_s (shipments s)))"
| "fresh_id ev s = True"

fun fresh_ids :: "event list \<Rightarrow> state \<Rightarrow> bool" where
  "fresh_ids [] s = True"
| "fresh_ids (ev # evs) s = (fresh_id ev s \<and> fresh_ids evs (snd (dispatch ev s)))"




section \<open>Worked values\<close>

text \<open>
  The draft of the specification's example, the record it becomes, and the state in which
  that record is the only one and is being edited.
\<close>

definition example_draft :: ShipmentFormData where
  "example_draft = \<lparr>length_f = ''12'', width_f = ''8'', height_f = ''6'',
                     weight_f = ''5.5'', reference_f = ''INV-12345''\<rparr>"

definition example_record :: Shipment where
  "example_record = \<lparr>id_s = ''V1StGXR8'', length_s = Fin 12, width_s = Fin 8,
                      height_s = Fin 6, weight_s = Fin (11 / 2),
                      reference_s = ''INV-12345''\<rparr>"

definition example_events :: "event list" where
  "example_events = [Input F_length ''12'', Input F_width ''8'', Input F_height ''6'',
                     Input F_weight ''5.5'', Input F_reference ''INV-12345'',
                     Submit ''V1StGXR8'']"

definition example_store :: state where
  "example_store = \<lparr>shipments = [example_record], editingId = None, formData = empty_form\<rparr>"

definition example_editing :: state where
  "example_editing = \<lparr>shipments = [example_record], editingId = Some ''V1StGXR8'',
                       formData = example_draft\<rparr>"

section \<open>Validation and the store operations\<close>

lemma positive_iff: "positive x \<longleftrightarrow> \<not> isNaN x \<and> \<not> js_le x (Fin 0)"
  by (cases x) (auto simp: isNaN_def)

lemma positive_js_ceil: "positive x \<Longrightarrow> positive (js_ceil x)"
proof (cases x)
  case (Fin q)
  assume "positive x"
  with Fin have "0 < q" by simp
  then have "0 < \<lceil>q\<rceil>" by simp
  with Fin show ?thesis by simp
qed auto

lemma parseFloat_Nil: "parseFloat [] = NaN"
  by (simp add: parseFloat_def parse_unsigned_def)

lemma positive_parse_nonempty: "positive (parseFloat t) \<Longrightarrow> t \<noteq> []"
  using parseFloat_Nil by fastforce

lemma validateForm_true_iff:
  "fst (validateForm fd) \<longleftrightarrow>
     positive (parseFloat (length_f fd)) \<and> positive (parseFloat (width_f fd))
     \<and> positive (parseFloat (height_f fd)) \<and> positive (parseFloat (weight_f fd))"
proof (cases "length_f fd = [] \<or> width_f fd = [] \<or> height_f fd = [] \<or> weight_f fd = []")
  case True
  then have "\<not> fst (validateForm fd)"
    by (simp add: validateForm_def)
  moreover from True have "\<not> (positive (parseFloat (length_f fd)) \<and> positive (parseFloat (width_f fd))
     \<and> positive (parseFloat (height_f fd)) \<and> positive (parseFloat (weight_f fd)))"
    using positive_parse_nonempty by blast
  ultimately show ?thesis by blast
next
  case False
  then show ?thesis
    by (simp add: validateForm_def Let_def positive_iff)
qed


lemma handleAddShipment_add:
  assumes "fst (validateForm (formData s))" and "\<not> truthy (editingId s)"
  shows "handleAddShipment nid s =
    ([Toast_success ''Package added''],
     s\<lparr>shipments := shipments s @
          [\<lparr>id_s = nid,
            length_s = js_ceil (parseFloat (length_f (formData s))),
            width_s = js_ceil (parseFloat (width_f (formData s))),
            height_s = js_ceil (parseFloat (height_f (formData s))),
            weight_s = parseFloat (weight_f (formData s)),
            reference_s = reference_f (formData s)\<rparr>],
        formData := empty_form\<rparr>)"
  using assms by (simp add: handleAddShipment_def Let_def)

lemma handleAddShipment_update:
  assumes "fst (validateForm (formData s))" and "editingId s = Some i" and "i \<noteq> []"
  shows "handleAddShipment nid s =
    ([Toast_success ''Package updated''],
     s\<lparr>shipments := map (\<lambda>r. if id_s r = i then
            \<lparr>id_s = i,
             length_s = js_ceil (parseFloat (length_f (formData s))),
             width_s = js_ceil (parseFloat (width_f (formData s))),
             height_s = js_ceil (parseFloat (height_f (formData s))),
             weight_s = parseFloat (weight_f (formData s)),
             reference_s = reference_f (formData s)\<rparr> else r) (shipments s),
        editingId := None,
        formData := empty_form\<rparr>)"
  using assms by (simp add: handleAddShipment_def Let_def truthy_def)

lemma handleAddShipment_rejected:
  "\<not> fst (validateForm (formData s)) \<Longrightarrow> snd (handleAddShipment nid s) = s"
  by (simp add: handleAddShipment_def)

lemma map_replace_ids:
  "map id_s (map (\<lambda>r. if id_s r = i then r' else r) xs) = map id_s xs" if "id_s r' = i"
  using that by (induction xs) auto



lemma filter_distinct_at_most_one:
  "distinct (map f xs) \<Longrightarrow> length (filter (\<lambda>r. f r = i) xs) \<le> 1"
proof (induction xs)
  case Nil
  then show ?case by simp
next
  case (Cons x xs)
  show ?case
  proof (cases "f x = i")
    case True
    with Cons.prems have "i \<notin> f ` set xs" by simp
    then have "\<forall>r \<in> set xs. f r \<noteq> i" by blast
    then have "filter (\<lambda>r. f r = i) xs = []" by (simp add: filter_empty_conv)
    with True show ?thesis by simp
  next
    case False
    with Cons show ?thesis by auto
  qed
qed

lemma dispatch_preserves_positive:
  assumes "\<forall>r \<in> set (shipments s). positive_record r"
  shows "\<forall>r \<in> set (shipments (snd (dispatch ev s))). positive_record r"
proof (cases ev)
  case (Submit nid)
  show ?thesis
  proof (cases "fst (validateForm (formData s))")
    case False
    with Submit assms show ?thesis by (simp add: handleAddShipment_rejected)
  next
    case True
    then have new: "positive_record
        \<lparr>id_s = j,
         length_s = js_ceil (parseFloat (length_f (formData s))),
         width_s = js_ceil (parseFloat (width_f (formData s))),
         height_s = js_ceil (parseFloat (height_f (formData s))),
         weight_s = parseFloat (weight_f (formData s)),
         reference_s = reference_f (formData s)\<rparr>" for j
      by (simp add: positive_record_def validateForm_true_iff positive_js_ceil)
    show ?thesis
    proof (cases "truthy (editingId s)")
      case False
      with True Submit assms new show ?thesis
        by (simp add: handleAddShipment_add)
    next
      case truthy: True
      then obtain i where "editingId s = Some i" "i \<noteq> []"
        by (auto simp: truthy_def split: option.splits)
      with True Submit assms new show ?thesis
        by (auto simp add: handleAddShipment_update)
    qed
  qed
next
  case (ClearAll c)
  with assms show ?thesis by (simp add: handleClearAll_def)
qed (use assms in \<open>simp_all add: handleInputChange_def handleEdit_def handleDelete_def handleCancel_def\<close>)

lemma dispatch_preserves_distinct:
  assumes "distinct (map id_s (shipments s))" and "enabled ev s"
  shows "distinct (map id_s (shipments (snd (dispatch ev s))))"
proof (cases ev)
  case (Submit nid)
  show ?thesis
  proof (cases "fst (validateForm (formData s))")
    case False
    with Submit assms show ?thesis by (simp add: handleAddShipment_rejected)
  next
    case True
    show ?thesis
    proof (cases "truthy (editingId s)")
      case False
      with True Submit assms show ?thesis
        by (simp add: handleAddShipment_add)
    next
      case truthy: True
      then obtain i where "editingId s = Some i" "i \<noteq> []"
        by (auto simp: truthy_def split: option.splits)
      with True Submit assms show ?thesis
        by (simp add: handleAddShipment_update map_replace_ids del: map_map)
    qed
  qed
next
  case (Delete i)
  with assms show ?thesis by (simp add: handleDelete_def distinct_map_filter)
next
  case (ClearAll c)
  with assms show ?thesis by (simp add: handleClearAll_def)
qed (use assms in \<open>simp_all add: handleInputChange_def handleEdit_def handleCancel_def\<close>)

lemma reachable_positive: "reachable s \<Longrightarrow> \<forall>r \<in> set (shipments s). positive_record r"
proof (induction rule: reachable.induct)
  case reachable_initial
  show ?case by (simp add: initial_def)
next
  case (reachable_step s ev)
  from reachable_step.IH show ?case by (rule dispatch_preserves_positive)
qed

lemma reachable_distinct: "reachable s \<Longrightarrow> distinct (map id_s (shipments s))"
proof (induction rule: reachable.induct)
  case reachable_initial
  show ?case by (simp add: initial_def)
next
  case (reachable_step s ev)
  then show ?case by (simp add: dispatch_preserves_distinct)
qed

lemma reachable_run: "reachable s \<Longrightarrow> all_enabled evs s \<Longrightarrow> reachable (run evs s)"
proof (induction evs arbitrary: s)
  case Nil
  then show ?case by simp
next
  case (Cons ev evs)
  from Cons.prems have "reachable (snd (dispatch ev s))"
    by (simp add: reachable_step)
  with Cons show ?case by simp
qed

lemma run_append: "run (evs @ evs') s = run evs' (run evs s)"
  by (induction evs arbitrary: s) auto

subsection \<open>Evaluating the worked values\<close>

lemma parseFloat_values:
  "parseFloat ''12'' = Fin 12"
  "parseFloat ''8'' = Fin 8"
  "parseFloat ''6'' = Fin 6"
  "parseFloat ''5.5'' = Fin (11 / 2)"
  "parseFloat ''0'' = Fin 0"
  "parseFloat ''12.3'' = Fin (3462142213541069 / 281474976710656)"
  "parseFloat ''Infinity'' = PosInf"
  by code_simp+

lemma toString_values:
  "toString (Fin 12) = ''12''"
  "toString (Fin 8) = ''8''"
  "toString (Fin 6) = ''6''"
  "toString (Fin (11 / 2)) = ''5.5''"
  by code_simp+

lemma example_draft_valid: "fst (validateForm example_draft)"
  by (simp add: validateForm_true_iff example_draft_def parseFloat_values)

lemma example_run: "run example_events initial = example_store"
  by (simp add: example_events_def initial_def example_store_def example_record_def
      handleInputChange_def handleAddShipment_def validateForm_def Let_def isNaN_def
      truthy_def empty_form_def parseFloat_values)

lemma example_enabled: "all_enabled example_events initial"
  by (simp add: example_events_def initial_def handleInputChange_def truthy_def)

lemma example_edit: "snd (handleEdit example_record example_store) = example_editing"
  by (simp add: handleEdit_def example_record_def example_store_def example_editing_def
      example_draft_def toString_values del: toString.simps)

section \<open>Rounding to binary64\<close>

lemma ipow_powi: "ipow b k = of_nat b powi k"
  by (simp add: ipow_def power_int_def power_inverse inverse_eq_divide power_divide)

lemma ipow_pos: "0 < b \<Longrightarrow> 0 < ipow b k"
  by (simp add: ipow_powi)

lemma ipow_add: "0 < b \<Longrightarrow> ipow b (i + j) = ipow b i * ipow b j"
  by (simp add: ipow_powi power_int_add)

lemma ipow_diff: "0 < b \<Longrightarrow> ipow b (i - j) = ipow b i / ipow b j"
  by (simp add: ipow_powi power_int_diff)

lemma ipow_nat: "ipow b (int n) = of_nat (b ^ n)"
  by (simp add: ipow_def)

lemma ipow_0: "ipow b 0 = 1"
  by (simp add: ipow_def)

lemma ipow_less_iff: "1 < b \<Longrightarrow> ipow b i < ipow b j \<longleftrightarrow> i < j"
proof
  assume b: "1 < b" and less: "ipow b i < ipow b j"
  show "i < j"
  proof (rule ccontr)
    assume "\<not> i < j"
    then have "j \<le> i" by simp
    with b have "ipow b j \<le> ipow b i"
      by (simp add: ipow_powi power_int_increasing)
    with less show False by simp
  qed
next
  assume "1 < b" and "i < j"
  then show "ipow b i < ipow b j"
    by (simp add: ipow_powi power_int_strict_increasing)
qed

lemma ipow_le_iff: "1 < b \<Longrightarrow> ipow b i \<le> ipow b j \<longleftrightarrow> i \<le> j"
  using ipow_less_iff [of b j i] by (auto simp: not_less [symmetric])

lemma dexp_bounds:
  assumes "0 < x" and "1 < b"
  shows "ipow b (dexp b x - 1) \<le> x" and "x < ipow b (dexp b x)"
proof -
  have "ipow b (dexp b x - 1) \<le> x \<and> x < ipow b (dexp b x)"
  proof (cases "1 \<le> x")
    case True
    define n where "n = nat \<lfloor>x\<rfloor>"
    define L where "L = floorlog b n"
    from True have n: "0 < n" "of_nat n \<le> x" "x < of_nat n + 1"
      by (simp_all add: n_def) linarith+
    from floorlog_bounds [OF n(1) assms(2)] have fl: "b ^ (L - 1) \<le> n" "n < b ^ L"
      by (simp_all add: L_def)
    from n(1) assms(2) have "0 < L"
      by (simp add: L_def floorlog_def)
    then have "int L - 1 = int (L - 1)" by simp
    then have "ipow b (int L - 1) = of_nat (b ^ (L - 1))"
      by (simp only: ipow_nat)
    also have "\<dots> \<le> of_nat n" using fl(1) by (simp only: of_nat_le_iff)
    finally have lower: "ipow b (int L - 1) \<le> x" using n(2) by simp
    from fl(2) have "n + 1 \<le> b ^ L" by simp
    then have "(of_nat (n + 1) :: rat) \<le> of_nat (b ^ L)" by (simp only: of_nat_le_iff)
    with n(3) have "x < of_nat (b ^ L)" by simp
    then have upper: "x < ipow b (int L)" by (simp only: ipow_nat)
    from True lower upper show ?thesis
      by (simp add: dexp_def n_def L_def)
  next
    case False
    define y where "y = 1 / x"
    define n where "n = nat (\<lceil>y\<rceil> - 1)"
    define L where "L = floorlog b n"
    from False assms(1) have y: "1 < y" by (simp add: y_def)
    then have "2 \<le> \<lceil>y\<rceil>" by linarith
    then have n: "0 < n" "of_nat n < y" "y \<le> of_nat n + 1"
      by (simp_all add: n_def) linarith+
    from floorlog_bounds [OF n(1) assms(2)] have fl: "b ^ (L - 1) \<le> n" "n < b ^ L"
      by (simp_all add: L_def)
    from n(1) assms(2) have "0 < L"
      by (simp add: L_def floorlog_def)
    have bpos: "(0::rat) < of_nat (b ^ k)" for k
      using assms(2) by simp
    from fl(2) have "n + 1 \<le> b ^ L" by simp
    then have "(of_nat (n + 1) :: rat) \<le> of_nat (b ^ L)" by (simp only: of_nat_le_iff)
    with n(3) have "y \<le> of_nat (b ^ L)" by simp
    then have "1 / of_nat (b ^ L) \<le> x"
      using assms(1) bpos [of L] by (simp add: y_def field_simps)
    moreover have "ipow b (- int L) = 1 / of_nat (b ^ L)"
      using \<open>0 < L\<close> by (simp add: ipow_def)
    ultimately have lower: "ipow b (- int L) \<le> x" by simp
    from fl(1) have "(of_nat (b ^ (L - 1)) :: rat) \<le> of_nat n" by (simp only: of_nat_le_iff)
    from this n(2) have "of_nat (b ^ (L - 1)) < y" by (rule order_le_less_trans)
    then have "x < 1 / of_nat (b ^ (L - 1))"
      using assms(1) bpos [of "L - 1"] by (simp add: y_def field_simps)
    moreover have "ipow b (1 - int L) = 1 / of_nat (b ^ (L - 1))"
    proof (cases "L = 1")
      case True
      then show ?thesis by (simp add: ipow_def)
    next
      case False
      with \<open>0 < L\<close> have "1 - int L < 0" "nat (int L - 1) = L - 1" by simp_all
      then show ?thesis by (simp add: ipow_def)
    qed
    ultimately have upper: "x < ipow b (1 - int L)" by simp
    from False lower upper show ?thesis
      by (simp add: dexp_def n_def L_def y_def)
  qed
  then show "ipow b (dexp b x - 1) \<le> x" and "x < ipow b (dexp b x)" by simp_all
qed

lemma round_half_even_of_int: "round_half_even (of_int z) = z"
  by (simp add: round_half_even_def)

lemma round_half_even_bounds:
  "of_int (round_half_even q) \<le> q + 1 / 2" "q - 1 / 2 \<le> of_int (round_half_even q)"
  by (simp_all add: round_half_even_def Let_def) linarith+

lemma round_half_even_mono_int:
  "of_int a \<le> q \<Longrightarrow> a \<le> round_half_even q" "q \<le> of_int b \<Longrightarrow> round_half_even q \<le> b"
proof -
  show "a \<le> round_half_even q" if "of_int a \<le> q"
  proof -
    from that have "a \<le> \<lfloor>q\<rfloor>" by (simp add: le_floor_iff)
    then show ?thesis
      by (auto simp: round_half_even_def Let_def)
  qed
  assume "q \<le> of_int b"
  show "round_half_even q \<le> b"
  proof (cases "q = of_int b")
    case True
    then show ?thesis by (simp add: round_half_even_of_int)
  next
    case False
    with \<open>q \<le> of_int b\<close> have "q < of_int b" by simp
    then have "\<lfloor>q\<rfloor> < b" by (simp add: floor_less_iff)
    then show ?thesis
      by (auto simp: round_half_even_def Let_def)
  qed
qed

lemma binary64_pos: "binary64 q \<Longrightarrow> 0 < q"
  by (auto simp: binary64_def ipow_pos)

lemma ipow_numeral: "ipow b (numeral k) = of_nat (b ^ numeral k)"
  using ipow_nat [of b "numeral k"] by simp

lemma round_pos_exact:
  assumes "0 < m" and "m < 2 ^ 53" and "- 1074 \<le> e" and "e \<le> 971"
  shows "round_pos (of_nat m * ipow 2 e) = Fin (of_nat m * ipow 2 e)"
proof -
  define q where "q = of_nat m * ipow 2 e"
  define E where "E = max (dexp 2 q - 1) (- 1022)"
  have qpos: "0 < q"
    using assms(1) by (simp add: q_def ipow_pos)
  have m53: "(of_nat m :: rat) < ipow 2 53"
    using assms(2) unfolding ipow_numeral by (simp only: of_nat_less_iff)
  have low: "E - 52 \<le> e"
  proof (cases "E = - 1022")
    case True
    with assms(3) show ?thesis by simp
  next
    case False
    then have "E = dexp 2 q - 1" by (simp add: E_def max_def split: if_splits)
    with dexp_bounds(1) [OF qpos, of 2] have "ipow 2 E \<le> q" by simp
    also have "q < ipow 2 53 * ipow 2 e"
      unfolding q_def using m53 by (simp add: ipow_pos)
    also have "\<dots> = ipow 2 (53 + e)" by (simp add: ipow_add)
    finally have "E < 53 + e" by (simp add: ipow_less_iff)
    then show ?thesis by simp
  qed
  define j where "j = nat (e - (E - 52))"
  from low have j: "e - (E - 52) = int j" by (simp add: j_def)
  have "q / ipow 2 (E - 52) = of_nat m * ipow 2 (e - (E - 52))"
    by (simp add: q_def ipow_diff)
  also have "\<dots> = of_int (int m * 2 ^ j)"
    unfolding j ipow_nat by simp
  finally have quot: "q / ipow 2 (E - 52) = of_int (int m * 2 ^ j)" .
  have again: "of_int (int m * 2 ^ j) * ipow 2 (E - 52) = q"
    using quot ipow_pos [of 2 "E - 52"] by (simp add: field_simps)
  have "q < ipow 2 53 * ipow 2 e"
    unfolding q_def using m53 by (simp add: ipow_pos)
  also have "\<dots> = ipow 2 (53 + e)" by (simp add: ipow_add)
  also have "\<dots> \<le> ipow 2 1024" using assms(4) by (simp add: ipow_le_iff)
  finally have small: "\<not> ipow 2 1024 \<le> q" by simp
  have rhe: "round_half_even (q / ipow 2 (E - 52)) = int m * 2 ^ j"
    by (simp only: quot round_half_even_of_int)
  have "round_pos q = Fin q"
    unfolding round_pos_def Let_def E_def [symmetric] rhe again
    using small by simp
  then show ?thesis
    by (simp only: q_def)
qed

lemma binary64_round_pos: "binary64 q \<Longrightarrow> round_pos q = Fin q"
  by (auto simp: binary64_def round_pos_exact)

lemma round_pos_cases:
  assumes "0 < q"
  shows "round_pos q = PosInf \<or> round_pos q = Fin 0 \<or> (\<exists>v. round_pos q = Fin v \<and> binary64 v)"
proof -
  define E where "E = max (dexp 2 q - 1) (- 1022)"
  define ulp where "ulp = ipow 2 (E - 52)"
  define z where "z = round_half_even (q / ulp)"
  define v where "v = of_int z * ulp"
  have ulp: "0 < ulp" by (simp add: ulp_def ipow_pos)
  have rp: "round_pos q = (if ipow 2 1024 \<le> v then PosInf else Fin v)"
    by (simp add: round_pos_def Let_def E_def ulp_def z_def v_def)
  have E: "- 1022 \<le> E" "dexp 2 q - 1 \<le> E" by (simp_all add: E_def)
  have "0 \<le> q / ulp" using assms ulp by simp
  then have z0: "0 \<le> z"
    unfolding z_def using round_half_even_mono_int(1) [of 0 "q / ulp"] by simp
  have "q < ipow 2 (dexp 2 q)" by (rule dexp_bounds(2) [OF assms]) simp
  also have "\<dots> \<le> ipow 2 (E + 1)" using E(2) by (simp add: ipow_le_iff)
  also have "\<dots> = ipow 2 53 * ulp" by (simp add: ulp_def ipow_add [symmetric] add.commute)
  finally have "q / ulp \<le> ipow 2 53" using ulp by (simp add: field_simps)
  then have "q / ulp \<le> of_int (2 ^ 53)" by (simp add: ipow_numeral)
  then have z53: "z \<le> 2 ^ 53"
    unfolding z_def by (rule round_half_even_mono_int(2))
  show ?thesis
  proof (cases "ipow 2 1024 \<le> v")
    case True
    with rp show ?thesis by simp
  next
    case False
    then have fin: "round_pos q = Fin v" and v: "v < ipow 2 1024"
      using rp by simp_all
    show ?thesis
    proof (cases "z = 0")
      case True
      with fin show ?thesis by (simp add: v_def)
    next
      case False
      with z0 have zpos: "0 < z" by simp
      have E1023: "E \<le> 1023"
      proof (cases "E = - 1022")
        case True
        then show ?thesis by simp
      next
        case False
        with E(1) have "E = dexp 2 q - 1" by (simp add: E_def max_def split: if_splits)
        with dexp_bounds(1) [OF assms, of 2] have "ipow 2 E \<le> q" by simp
        moreover have "ipow 2 E = ipow 2 52 * ulp"
          by (simp add: ulp_def ipow_add [symmetric])
        ultimately have "ipow 2 52 \<le> q / ulp" using ulp by (simp add: field_simps)
        then have "of_int (2 ^ 52) \<le> q / ulp" by (simp add: ipow_numeral)
        then have "2 ^ 52 \<le> z"
          unfolding z_def by (rule round_half_even_mono_int(1))
        then have "(of_int (2 ^ 52) :: rat) \<le> of_int z" by (simp only: of_int_le_iff)
        then have "ipow 2 52 * ulp \<le> v"
          unfolding v_def using ulp by (simp add: ipow_numeral)
        with \<open>ipow 2 E = ipow 2 52 * ulp\<close> v have "ipow 2 E < ipow 2 1024" by simp
        then show ?thesis by (simp add: ipow_less_iff)
      qed
      show ?thesis
      proof (cases "z = 2 ^ 53")
        case True
        have "v = ipow 2 53 * ulp" by (simp add: v_def True ipow_numeral)
        also have "\<dots> = ipow 2 (E + 1)" by (simp add: ulp_def ipow_add [symmetric] add.commute)
        finally have vE: "v = ipow 2 (E + 1)" .
        with v have "E + 1 < 1024" by (simp add: ipow_less_iff)
        moreover have "ipow 2 (52 + (E - 51)) = ipow 2 52 * ipow 2 (E - 51)"
          by (rule ipow_add) simp
        then have "ipow 2 (E + 1) = ipow 2 52 * ipow 2 (E - 51)"
          by (simp add: add.commute)
        then have "v = of_nat (2 ^ 52) * ipow 2 (E - 51)"
          unfolding vE by (simp only: ipow_numeral)
        ultimately have "binary64 v"
          unfolding binary64_def using E(1)
          by (intro exI [of _ "2 ^ 52"] exI [of _ "E - 51"]) simp
        with fin show ?thesis by blast
      next
        case False
        with z53 have "z < 2 ^ 53" by simp
        with zpos have "nat z < 2 ^ 53" "0 < nat z" "of_int z = (of_nat (nat z) :: rat)"
          by (simp_all add: nat_less_iff)
        then have "binary64 v"
          unfolding binary64_def v_def ulp_def using E(1) E1023
          by (intro exI [of _ "nat z"] exI [of _ "E - 52"]) simp
        with fin show ?thesis by blast
      qed
    qed
  qed
qed

lemma binary64_ceiling:
  assumes "binary64 q"
  shows "binary64 (of_int \<lceil>q\<rceil>)"
proof -
  from assms obtain m e where q: "q = of_nat m * ipow 2 e"
    and m: "0 < m" "m < 2 ^ 53" and e: "- 1074 \<le> e" "e \<le> 971"
    by (auto simp: binary64_def)
  show ?thesis
  proof (cases "0 \<le> e")
    case True
    then have "q = of_int (int (m * 2 ^ nat e))"
      by (simp add: q ipow_def)
    then obtain n :: int where "q = of_int n" ..
    then have "of_int \<lceil>q\<rceil> = q"
      by simp
    with assms show ?thesis by (simp only:)
  next
    case False
    then have "ipow 2 e \<le> ipow 2 0" by (simp add: ipow_le_iff)
    then have "q \<le> of_nat m" by (simp add: q ipow_0 mult_left_le)
    then have "\<lceil>q\<rceil> \<le> int m" by (simp add: ceiling_le_iff)
    moreover have "0 < \<lceil>q\<rceil>" using binary64_pos [OF assms] by simp
    ultimately have "0 < nat \<lceil>q\<rceil>" "nat \<lceil>q\<rceil> < 2 ^ 53"
      "(of_int \<lceil>q\<rceil> :: rat) = of_nat (nat \<lceil>q\<rceil>) * ipow 2 0"
      using m(2) by (simp_all add: ipow_0)
    then show ?thesis
      unfolding binary64_def
      by (intro exI [of _ "nat \<lceil>q\<rceil>"] exI [of _ 0]) simp
  qed
qed

section \<open>The shortest digits of a binary64 value\<close>

lemma candidate_sound:
  assumes "0 < x" and "0 < k" and "candidate x k = Some (k', s, n)"
  shows "k' = k \<and> 10 ^ (k - 1) \<le> s \<and> s < 10 ^ k
         \<and> round_pos (of_nat s * ipow 10 (n - int k)) = Fin x"
proof -
  define n0 where "n0 = dexp 10 x"
  define p where "p = n0 - int k"
  define y where "y = x / ipow 10 p"
  define lo where "lo = \<lfloor>y\<rfloor>"
  define hi where "hi = lo + 1"
  define ok_lo where "ok_lo \<longleftrightarrow> round_pos (of_int lo * ipow 10 p) = Fin x"
  define ok_hi where "ok_hi \<longleftrightarrow> round_pos (of_int hi * ipow 10 p) = Fin x"
  define pick_hi where
    "pick_hi \<longleftrightarrow> ok_hi \<and> (\<not> ok_lo \<or> of_int hi - y < y - of_int lo
                          \<or> (of_int hi - y = y - of_int lo \<and> odd lo))"
  have cand: "candidate x k =
      (if pick_hi then (if hi = 10 ^ k then Some (k, 10 ^ (k - 1), n0 + 1) else Some (k, nat hi, n0))
       else if ok_lo then Some (k, nat lo, n0) else None)"
    by (simp only: candidate_def Let_def n0_def p_def y_def lo_def hi_def ok_lo_def ok_hi_def
        pick_hi_def)
  have pp: "0 < ipow 10 p" by (simp add: ipow_pos)
  have "ipow 10 (n0 - 1) \<le> x" "x < ipow 10 n0"
    using dexp_bounds [OF assms(1), of 10] by (simp_all add: n0_def)
  moreover have "ipow 10 (n0 - 1) = ipow 10 (int (k - 1)) * ipow 10 p"
    using assms(2) by (simp add: p_def ipow_add [symmetric] of_nat_diff)
  moreover have "ipow 10 n0 = ipow 10 (int k) * ipow 10 p"
    by (simp add: p_def ipow_add [symmetric])
  ultimately have "ipow 10 (int (k - 1)) \<le> y" "y < ipow 10 (int k)"
    using pp by (simp_all add: y_def field_simps)
  then have ybounds: "of_int (10 ^ (k - 1)) \<le> y" "y < of_int (10 ^ k)"
    by (simp_all add: ipow_nat)
  then have lo: "10 ^ (k - 1) \<le> lo" "lo < 10 ^ k"
    unfolding lo_def by (simp_all only: le_floor_iff floor_less_iff)
  have lopos: "0 < lo"
    using lo(1) by (rule less_le_trans [rotated]) simp
  from cand assms(3) consider
      (top) "pick_hi" "hi = 10 ^ k" "k' = k" "s = 10 ^ (k - 1)" "n = n0 + 1"
    | (up) "pick_hi" "hi \<noteq> 10 ^ k" "k' = k" "s = nat hi" "n = n0"
    | (down) "ok_lo" "k' = k" "s = nat lo" "n = n0"
    by (auto split: if_splits)
  then show ?thesis
  proof cases
    case top
    have "ipow 10 (int (k - 1)) * ipow 10 (n0 + 1 - int k) = ipow 10 (int k) * ipow 10 p"
      using assms(2) by (simp add: p_def ipow_add [symmetric] of_nat_diff)
    then have "of_nat (10 ^ (k - 1)) * ipow 10 (n0 + 1 - int k) = of_int hi * ipow 10 p"
      by (simp add: top(2) ipow_nat)
    moreover from top(1) have "round_pos (of_int hi * ipow 10 p) = Fin x"
      by (simp add: pick_hi_def ok_hi_def)
    ultimately have "round_pos (of_nat s * ipow 10 (n - int k)) = Fin x"
      by (simp only: top)
    moreover have "(10::nat) ^ (k - 1) < 10 ^ k"
      using assms(2) by (simp add: power_strict_increasing)
    ultimately show ?thesis using top by simp
  next
    case up
    from up(1) have "round_pos (of_int hi * ipow 10 p) = Fin x"
      by (simp add: pick_hi_def ok_hi_def)
    moreover have "of_nat (nat hi) = (of_int hi :: rat)"
      using lopos by (simp add: hi_def)
    ultimately have "round_pos (of_nat s * ipow 10 (n - int k)) = Fin x"
      by (simp add: up p_def)
    moreover from lo up(2) have "10 ^ (k - 1) \<le> hi" "hi < 10 ^ k"
      by (simp_all add: hi_def)
    then have "10 ^ (k - 1) \<le> nat hi" "nat hi < 10 ^ k"
      by (simp_all add: le_nat_iff nat_less_iff)
    ultimately show ?thesis using up by simp
  next
    case down
    from down(1) have "round_pos (of_int lo * ipow 10 p) = Fin x"
      by (simp add: ok_lo_def)
    moreover have "of_nat (nat lo) = (of_int lo :: rat)"
      using lopos by simp
    ultimately have "round_pos (of_nat s * ipow 10 (n - int k)) = Fin x"
      by (simp add: down p_def)
    moreover from lo have "10 ^ (k - 1) \<le> nat lo" "nat lo < 10 ^ k"
      by (simp_all add: le_nat_iff nat_less_iff)
    ultimately show ?thesis using down by simp
  qed
qed

lemma shortest_from_sound:
  "shortest_from fuel x k = Some r \<Longrightarrow> \<exists>j \<ge> k. candidate x j = Some r"
proof (induction fuel arbitrary: k)
  case 0
  then show ?case by simp
next
  case (Suc fuel)
  show ?case
  proof (cases "candidate x k")
    case None
    with Suc.prems have "shortest_from fuel x (Suc k) = Some r" by simp
    then obtain j where "Suc k \<le> j" "candidate x j = Some r"
      using Suc.IH by blast
    then show ?thesis by (auto intro: exI [of _ j])
  next
    case (Some r')
    with Suc.prems show ?thesis by auto
  qed
qed

lemma shortest_from_complete:
  "candidate x j \<noteq> None \<Longrightarrow> k \<le> j \<Longrightarrow> j < k + fuel \<Longrightarrow> shortest_from fuel x k \<noteq> None"
proof (induction fuel arbitrary: k)
  case 0
  then show ?case by simp
next
  case (Suc fuel)
  show ?case
  proof (cases "candidate x k")
    case None
    with Suc.prems have "k \<noteq> j" by auto
    with Suc.prems have "Suc k \<le> j" "j < Suc k + fuel" by simp_all
    with Suc.IH [OF Suc.prems(1)] have "shortest_from fuel x (Suc k) \<noteq> None" by blast
    with None show ?thesis by simp
  next
    case (Some r)
    then show ?thesis by simp
  qed
qed

lemma pow2_le_pow10: "(2::nat) ^ 1024 \<le> 10 ^ 309" "(2::nat) ^ 1074 \<le> 10 ^ 324"
  by simp_all

lemma binary64_decimal_range:
  assumes "binary64 x"
  shows "- 324 < dexp 10 x" and "dexp 10 x \<le> 309"
proof -
  from assms obtain m e where x: "x = of_nat m * ipow 2 e"
    and m: "0 < m" "m < 2 ^ 53" and e: "- 1074 \<le> e" "e \<le> 971"
    by (auto simp: binary64_def)
  have xpos: "0 < x" by (rule binary64_pos [OF assms])
  note d = dexp_bounds [OF xpos, of 10, simplified]
  have "ipow 10 (- 324) = 1 / of_nat (10 ^ 324)"
    by (simp add: ipow_def)
  also have "\<dots> \<le> 1 / of_nat (2 ^ 1074)"
    using pow2_le_pow10(2) by (simp only: frac_le of_nat_le_iff of_nat_0_less_iff zero_less_power zero_less_numeral zero_le_one order_refl)
  also have "\<dots> = ipow 2 (- 1074)"
    by (simp add: ipow_def)
  also have "\<dots> \<le> ipow 2 e"
    using e(1) by (simp add: ipow_le_iff)
  also have "\<dots> \<le> of_nat m * ipow 2 e"
    using m(1) ipow_pos [of 2 e] by (simp add: mult_le_cancel_right1)
  also have "\<dots> < ipow 10 (dexp 10 x)"
    using d(2) by (simp add: x)
  finally show "- 324 < dexp 10 x"
    by (simp add: ipow_less_iff)
  have "(of_nat m :: rat) < of_nat (2 ^ 53)"
    using m(2) by (simp only: of_nat_less_iff)
  then have "of_nat m < ipow 2 53" by (simp only: ipow_numeral)
  have "ipow 10 (dexp 10 x - 1) \<le> x" by (rule d(1))
  also have "x < ipow 2 53 * ipow 2 e"
    unfolding x using \<open>of_nat m < ipow 2 53\<close> by (simp add: ipow_pos)
  also have "\<dots> = ipow 2 (53 + e)" by (simp add: ipow_add)
  also have "\<dots> \<le> ipow 2 1024" using e(2) by (simp add: ipow_le_iff)
  also have "\<dots> = of_nat (2 ^ 1024)" by (simp only: ipow_numeral)
  also have "\<dots> \<le> of_nat (10 ^ 309)"
    using pow2_le_pow10(1) by (simp only: of_nat_le_iff)
  also have "\<dots> = ipow 10 309" by (simp only: ipow_numeral)
  finally show "dexp 10 x \<le> 309"
    by (simp add: ipow_less_iff)
qed

lemma ipow_10_split: "ipow 10 (int j) = ipow 2 (int j) * ipow 5 (int j)"
proof -
  have "(10::nat) ^ j = 2 ^ j * 5 ^ j"
    by (simp add: power_mult_distrib [symmetric])
  then show ?thesis
    by (simp only: ipow_nat of_nat_mult)
qed

lemma binary64_scaled_integer:
  assumes "binary64 x"
  shows "\<exists>z::int. x / ipow 10 (- 1074) = of_int z"
proof -
  from assms obtain m e where x: "x = of_nat m * ipow 2 e"
    and e: "- 1074 \<le> e"
    by (auto simp: binary64_def)
  define j where "j = nat (e + 1074)"
  from e have j: "e + 1074 = int j" by (simp add: j_def)
  have "ipow 10 (0 - 1074) = ipow 10 0 / ipow 10 1074"
    by (rule ipow_diff) simp
  then have "x / ipow 10 (- 1074) = x * ipow 10 (int 1074)"
    by (simp add: ipow_0)
  also have "\<dots> = of_nat m * (ipow 2 e * ipow 2 (int 1074)) * ipow 5 (int 1074)"
    by (simp only: ipow_10_split x mult.assoc)
  also have "ipow 2 e * ipow 2 (int 1074) = ipow 2 (int j)"
    using j by (simp add: ipow_add [symmetric])
  finally have "x / ipow 10 (- 1074) = of_int (int (m * 2 ^ j * 5 ^ 1074))"
    by (simp only: ipow_nat of_nat_mult of_int_of_nat_eq of_int_mult)
  then show ?thesis ..
qed

lemma candidate_complete:
  assumes "binary64 x"
  shows "candidate x (nat (dexp 10 x + 1074)) \<noteq> None"
proof -
  define k where "k = nat (dexp 10 x + 1074)"
  have k: "dexp 10 x - int k = - 1074"
    using binary64_decimal_range(1) [OF assms] by (simp add: k_def)
  obtain z :: int where z: "x / ipow 10 (- 1074) = of_int z"
    using binary64_scaled_integer [OF assms] ..
  then have "of_int z * ipow 10 (- 1074) = x"
    using ipow_pos [of 10 "- 1074"] by (simp add: field_simps)
  then have ok: "round_pos (of_int z * ipow 10 (- 1074)) = Fin x"
    using binary64_round_pos [OF assms] by simp
  have "candidate x k \<noteq> None"
    by (simp add: candidate_def Let_def k z ok)
  then show ?thesis unfolding k_def .
qed

lemma shortest_binary64:
  assumes "binary64 x"
  shows "\<exists>k s n. shortest x = Some (k, s, n) \<and> 0 < k \<and> 10 ^ (k - 1) \<le> s \<and> s < 10 ^ k
           \<and> round_pos (of_nat s * ipow 10 (n - int k)) = Fin x"
proof -
  define j where "j = nat (dexp 10 x + 1074)"
  have "1 \<le> j" "j < 1 + 1400"
    using binary64_decimal_range [OF assms] by (simp_all add: j_def)
  moreover have "candidate x j \<noteq> None"
    unfolding j_def by (rule candidate_complete [OF assms])
  ultimately have "shortest_from 1400 x 1 \<noteq> None"
    by (intro shortest_from_complete [of x j])
  then obtain r where r: "shortest x = Some r"
    by (auto simp: shortest_def)
  then obtain i where i: "1 \<le> i" "candidate x i = Some r"
    unfolding shortest_def using shortest_from_sound by blast
  obtain k s n where "r = (k, s, n)" by (cases r) auto
  with candidate_sound [OF binary64_pos [OF assms], of i k s n] i r
  show ?thesis by auto
qed

section \<open>Reading back what \<open>toString\<close> prints\<close>

lemma digit_char_props:
  assumes "d < 10"
  shows "is_digit (digit_char d)" and "digit_val (digit_char d) = d"
  using assms by (simp_all add: is_digit_def digit_val_def digit_char_def)

lemma is_digit_simps:
  "is_digit CHR ''0''" "\<not> is_digit CHR ''.''" "\<not> is_digit CHR ''e''"
  "\<not> is_digit CHR ''+''" "\<not> is_digit CHR ''-''"
  by (simp_all add: is_digit_def)

lemma is_digit_not_special:
  assumes "is_digit c"
  shows "\<not> is_ws c" "c \<noteq> CHR ''-''" "c \<noteq> CHR ''+''" "c \<noteq> CHR ''I''" "c \<noteq> CHR ''.''"
    "c \<noteq> CHR ''e''" "c \<noteq> CHR ''E''"
  using assms by (auto simp: is_digit_def is_ws_def)

lemma digits_val_foldl:
  "foldl (\<lambda>a c. 10 * a + digit_val c) acc ds = acc * 10 ^ length ds + digits_val ds"
proof (induction ds arbitrary: acc)
  case Nil
  show ?case by (simp add: digits_val_def)
next
  case (Cons c ds)
  have "foldl (\<lambda>a c. 10 * a + digit_val c) acc (c # ds)
      = (10 * acc + digit_val c) * 10 ^ length ds + digits_val ds"
    by (simp add: Cons.IH)
  moreover have "digits_val (c # ds) = digit_val c * 10 ^ length ds + digits_val ds"
    using Cons.IH [of "digit_val c"] by (simp add: digits_val_def)
  ultimately show ?case by (simp add: algebra_simps)
qed

lemma digits_val_append: "digits_val (a @ b) = digits_val a * 10 ^ length b + digits_val b"
  using digits_val_foldl [of "digits_val a" b] by (simp add: digits_val_def)

lemma digits_val_Nil: "digits_val [] = 0"
  by (simp add: digits_val_def)

lemma digits_val_single: "digits_val [c] = digit_val c"
  by (simp add: digits_val_def)

lemma length_digits_of: "length (digits_of k s) = k"
  by (induction k arbitrary: s) auto

lemma digits_of_digits: "c \<in> set (digits_of k s) \<Longrightarrow> is_digit c"
  by (induction k arbitrary: s) (auto simp: digit_char_props)

lemma digits_val_digits_of: "digits_val (digits_of k s) = s mod 10 ^ k"
proof (induction k arbitrary: s)
  case 0
  show ?case by (simp add: digits_val_Nil)
next
  case (Suc k)
  have "digits_val (digits_of (Suc k) s) = (s div 10) mod 10 ^ k * 10 + s mod 10"
    by (simp add: digits_val_append Suc.IH digits_val_single digit_char_props)
  also have "\<dots> = s mod 10 ^ Suc k"
    by (simp add: mod_mult2_eq)
  finally show ?case .
qed

lemma digits_val_zeros: "digits_val (replicate j CHR ''0'' @ ds) = digits_val ds"
proof (induction j)
  case 0
  show ?case by simp
next
  case (Suc j)
  have "digits_val (CHR ''0'' # (replicate j CHR ''0'' @ ds))
      = digits_val [CHR ''0''] * 10 ^ length (replicate j CHR ''0'' @ ds)
        + digits_val (replicate j CHR ''0'' @ ds)"
    using digits_val_append [of "[CHR ''0'']" "replicate j CHR ''0'' @ ds"] by simp
  then show ?case
    by (simp add: Suc.IH digits_val_single digit_val_def)
qed

lemma dec_string_props:
  "dec_string n \<noteq> []" "\<forall>c \<in> set (dec_string n). is_digit c" "digits_val (dec_string n) = n"
proof -
  define L where "L = max 1 (floorlog 10 n)"
  have "n < 10 ^ L"
  proof (cases "n = 0")
    case True
    then show ?thesis by simp
  next
    case False
    then have "n < 10 ^ floorlog 10 n"
      using floorlog_bounds [of n 10] by simp
    also have "\<dots> \<le> 10 ^ L"
      by (simp add: L_def power_increasing)
    finally show ?thesis .
  qed
  then show "digits_val (dec_string n) = n"
    unfolding L_def by (simp add: dec_string_def digits_val_digits_of)
  have "length (dec_string n) = L"
    by (simp add: dec_string_def L_def length_digits_of)
  moreover have "0 < L" by (simp add: L_def)
  ultimately show "dec_string n \<noteq> []" by auto
  show "\<forall>c \<in> set (dec_string n). is_digit c"
    by (auto simp: dec_string_def dest: digits_of_digits)
qed

lemma takeWhile_digits:
  assumes "\<forall>c \<in> set a. is_digit c" and "t = [] \<or> \<not> is_digit (hd t)"
  shows "takeWhile is_digit (a @ t) = a" and "dropWhile is_digit (a @ t) = t"
proof -
  from assms(2) have "takeWhile is_digit t = []" "dropWhile is_digit t = t"
    by (cases t; auto)+
  with assms(1) show "takeWhile is_digit (a @ t) = a" and "dropWhile is_digit (a @ t) = t"
    by (simp_all add: takeWhile_append2 dropWhile_append2)
qed

lemma takeWhile_all_digits:
  assumes "\<forall>c \<in> set a. is_digit c"
  shows "takeWhile is_digit a = a" and "dropWhile is_digit a = []"
  using assms by (simp_all add: takeWhile_eq_all_conv)

lemma parse_exponent_signed:
  assumes "\<forall>c \<in> set d. is_digit c"
  shows "parse_exponent (CHR ''e'' # CHR ''+'' # d) = int (digits_val d)"
    and "parse_exponent (CHR ''e'' # CHR ''-'' # d) = - int (digits_val d)"
  by (simp_all add: parse_exponent_def takeWhile_all_digits(1) [OF assms])

lemma parse_unsigned_integer:
  assumes "\<forall>c \<in> set a. is_digit c" and "a \<noteq> []"
  shows "parse_unsigned a = Some (of_nat (digits_val a))"
  using assms(2) by (simp add: parse_unsigned_def takeWhile_all_digits [OF assms(1)])

lemma parse_unsigned_fraction:
  assumes "\<forall>c \<in> set a. is_digit c" and "a \<noteq> []" and "\<forall>c \<in> set b. is_digit c"
    and "t = [] \<or> \<not> is_digit (hd t)"
  shows "parse_unsigned (a @ CHR ''.'' # b @ t) =
     Some (of_nat (digits_val (a @ b)) * ipow 10 (parse_exponent t - int (length b)))"
proof -
  have 1: "takeWhile is_digit (a @ CHR ''.'' # b @ t) = a"
    "dropWhile is_digit (a @ CHR ''.'' # b @ t) = CHR ''.'' # b @ t"
    by (rule takeWhile_digits [OF assms(1)], simp add: is_digit_simps)+
  have 2: "takeWhile is_digit (b @ t) = b" "dropWhile is_digit (b @ t) = t"
    by (rule takeWhile_digits [OF assms(3,4)])+
  show ?thesis
    using assms(2) by (simp add: parse_unsigned_def 1 2)
qed

lemma parse_unsigned_exponent:
  assumes "\<forall>c \<in> set a. is_digit c" and "a \<noteq> []"
  shows "parse_unsigned (a @ CHR ''e'' # t) =
     Some (of_nat (digits_val a) * ipow 10 (parse_exponent (CHR ''e'' # t)))"
proof -
  have 1: "takeWhile is_digit (a @ CHR ''e'' # t) = a"
    "dropWhile is_digit (a @ CHR ''e'' # t) = CHR ''e'' # t"
    by (rule takeWhile_digits [OF assms(1)], simp add: is_digit_simps)+
  show ?thesis
    using assms(2) by (simp add: parse_unsigned_def 1)
qed

lemma parse_exponent_Nil: "parse_exponent [] = 0"
  by (simp add: parse_exponent_def)

lemma parse_format_digits:
  assumes "0 < k" and "10 ^ (k - 1) \<le> s" and "s < 10 ^ k"
  shows "parse_unsigned (format_digits k s n) = Some (of_nat s * ipow 10 (n - int k))
       \<and> (\<exists>c t. format_digits k s n = c # t \<and> is_digit c)"
proof -
  define ds where "ds = digits_of k s"
  have len: "length ds = k" by (simp add: ds_def length_digits_of)
  have dig: "\<forall>c \<in> set ds. is_digit c" by (auto simp: ds_def dest: digits_of_digits)
  have val: "digits_val ds = s" using assms(3) by (simp add: ds_def digits_val_digits_of)
  from len assms(1) obtain c0 ds' where ds: "ds = c0 # ds'" by (cases ds) auto
  with dig have c0: "is_digit c0" by simp
  have tdig: "\<forall>c \<in> set (take j ds). is_digit c" "\<forall>c \<in> set (drop j ds). is_digit c" for j
    using dig by (auto dest: in_set_takeD in_set_dropD)
  have zdig: "\<forall>c \<in> set (replicate j CHR ''0''). is_digit c" for j
    by (simp add: is_digit_simps)
  show ?thesis
  proof (cases "- 5 \<le> n \<and> n \<le> 21")
    case fixed: True
    consider (whole) "int k \<le> n" | (point) "0 < n" "n < int k" | (small) "n \<le> 0"
      by linarith
    then show ?thesis
    proof cases
      case whole
      define j where "j = nat (n - int k)"
      have str: "format_digits k s n = ds @ replicate j CHR ''0''"
        using fixed whole by (simp add: format_digits_def Let_def ds_def j_def)
      have "\<forall>c \<in> set (ds @ replicate j CHR ''0''). is_digit c"
        using dig by (auto simp: is_digit_simps)
      moreover have "ds @ replicate j CHR ''0'' \<noteq> []" by (simp add: ds)
      ultimately have "parse_unsigned (ds @ replicate j CHR ''0'')
          = Some (of_nat (digits_val (ds @ replicate j CHR ''0'')))"
        by (rule parse_unsigned_integer)
      moreover have "digits_val (replicate j CHR ''0'') = 0"
        using digits_val_zeros [of j "[]"] by (simp add: digits_val_Nil)
      then have "digits_val (ds @ replicate j CHR ''0'') = s * 10 ^ j"
        by (simp add: digits_val_append val)
      moreover have "(of_nat (s * 10 ^ j) :: rat) = of_nat s * ipow 10 (n - int k)"
      proof -
        from whole have "n - int k = int j" by (simp add: j_def)
        then show ?thesis by (simp only: ipow_nat of_nat_mult)
      qed
      ultimately have "parse_unsigned (format_digits k s n) = Some (of_nat s * ipow 10 (n - int k))"
        by (simp add: str)
      moreover have "\<exists>c t. format_digits k s n = c # t \<and> is_digit c"
        using c0 by (simp add: str ds)
      ultimately show ?thesis ..
    next
      case point
      define a where "a = take (nat n) ds"
      define b where "b = drop (nat n) ds"
      have str: "format_digits k s n = a @ CHR ''.'' # b @ []"
        using fixed point by (simp add: format_digits_def Let_def ds_def a_def b_def)
      have a: "a \<noteq> []" using point(1) ds by (auto simp: a_def)
      have "parse_unsigned (a @ CHR ''.'' # b @ []) =
          Some (of_nat (digits_val (a @ b)) * ipow 10 (parse_exponent [] - int (length b)))"
        by (rule parse_unsigned_fraction) (use a in \<open>simp_all add: a_def b_def tdig\<close>)
      moreover have "a @ b = ds" by (simp add: a_def b_def)
      moreover have "parse_exponent [] - int (length b) = n - int k"
        using point by (simp add: parse_exponent_Nil b_def len)
      moreover have "\<exists>c t. a @ CHR ''.'' # b @ [] = c # t \<and> is_digit c"
        using point(1) c0 by (cases "nat n") (simp_all add: a_def ds)
      ultimately show ?thesis
        by (simp only: str val)
    next
      case small
      define j where "j = nat (- n)"
      define b where "b = replicate j CHR ''0'' @ ds"
      have str: "format_digits k s n = [CHR ''0''] @ CHR ''.'' # b @ []"
        using fixed small assms(1) by (simp add: format_digits_def Let_def ds_def j_def b_def)
      have "parse_unsigned ([CHR ''0''] @ CHR ''.'' # b @ []) =
          Some (of_nat (digits_val ([CHR ''0''] @ b)) * ipow 10 (parse_exponent [] - int (length b)))"
        by (rule parse_unsigned_fraction) (use dig in \<open>auto simp: b_def is_digit_simps\<close>)
      moreover have "digits_val ([CHR ''0''] @ b) = s"
        using digits_val_zeros [of "Suc j" ds] by (simp add: b_def val)
      moreover have "parse_exponent [] - int (length b) = n - int k"
        using small by (simp add: parse_exponent_Nil b_def len j_def)
      ultimately show ?thesis
        by (simp add: str is_digit_simps)
    qed
  next
    case sci: False
    define e where "e = n - 1"
    define sg where "sg = (if e < 0 then ''-'' else ''+'')"
    define d where "d = dec_string (nat \<bar>e\<bar>)"
    have d: "\<forall>c \<in> set d. is_digit c" "digits_val d = nat \<bar>e\<bar>"
      by (simp_all add: d_def dec_string_props)
    have pe: "parse_exponent (CHR ''e'' # sg @ d) = e"
      by (simp add: sg_def parse_exponent_signed [OF d(1)] d(2))
    show ?thesis
    proof (cases "k = 1")
      case True
      have str: "format_digits k s n = ds @ CHR ''e'' # sg @ d"
        using sci True by (auto simp add: format_digits_def Let_def ds_def e_def sg_def d_def)
      have "parse_unsigned (ds @ CHR ''e'' # sg @ d) =
          Some (of_nat (digits_val ds) * ipow 10 (parse_exponent (CHR ''e'' # sg @ d)))"
        by (rule parse_unsigned_exponent) (simp_all add: dig ds)
      moreover have "e = n - int k" by (simp add: e_def True)
      ultimately have "parse_unsigned (format_digits k s n) = Some (of_nat s * ipow 10 (n - int k))"
        by (simp add: str pe val)
      moreover have "\<exists>c t. format_digits k s n = c # t \<and> is_digit c"
        using c0 by (simp add: str ds)
      ultimately show ?thesis ..
    next
      case False
      define a where "a = take 1 ds"
      define b where "b = drop 1 ds"
      have str: "format_digits k s n = a @ CHR ''.'' # b @ CHR ''e'' # sg @ d"
        using sci False
        by (auto simp add: format_digits_def Let_def ds_def e_def sg_def d_def a_def b_def)
      have "parse_unsigned (a @ CHR ''.'' # b @ CHR ''e'' # sg @ d) =
          Some (of_nat (digits_val (a @ b))
                * ipow 10 (parse_exponent (CHR ''e'' # sg @ d) - int (length b)))"
        by (rule parse_unsigned_fraction)
          (use dig in \<open>simp_all add: a_def b_def ds is_digit_simps\<close>)
      moreover have "a @ b = ds" by (simp add: a_def b_def)
      moreover have "e - int (length b) = n - int k"
        using assms(1) by (simp add: e_def b_def len)
      ultimately have "parse_unsigned (format_digits k s n) = Some (of_nat s * ipow 10 (n - int k))"
        by (simp add: str pe val)
      moreover have "\<exists>c t. format_digits k s n = c # t \<and> is_digit c"
        using c0 by (simp add: str a_def ds)
      ultimately show ?thesis ..
    qed
  qed
qed

lemma parseFloat_digit_start:
  assumes "is_digit c"
  shows "parseFloat (c # t) = (case parse_unsigned (c # t) of None \<Rightarrow> NaN | Some q \<Rightarrow> to_number q)"
  using is_digit_not_special [OF assms]
  by (cases "parse_unsigned (c # t)") (simp_all add: parseFloat_def Let_def)

lemma parseFloat_toString_binary64:
  assumes "binary64 x"
  shows "parseFloat (toString (Fin x)) = Fin x"
proof -
  from shortest_binary64 [OF assms] obtain k s n where sh: "shortest x = Some (k, s, n)"
    and k: "0 < k" and s: "10 ^ (k - 1) \<le> s" "s < 10 ^ k"
    and r: "round_pos (of_nat s * ipow 10 (n - int k)) = Fin x"
    by blast
  have xpos: "0 < x" by (rule binary64_pos [OF assms])
  then have str: "toString (Fin x) = format_digits k s n"
    by (simp add: pos_toString_def sh)
  from parse_format_digits [OF k s, of n] obtain c t
    where p: "parse_unsigned (format_digits k s n) = Some (of_nat s * ipow 10 (n - int k))"
      and f: "format_digits k s n = c # t" "is_digit c"
    by blast
  define q where "q = of_nat s * ipow 10 (n - int k)"
  have "0 < s" using s(1) by (rule less_le_trans [rotated]) simp
  then have "0 < q"
    by (simp add: q_def ipow_pos)
  then have "to_number q = round_pos q"
    by (simp add: to_number_def)
  with r have "to_number q = Fin x"
    by (simp only: q_def)
  with p f parseFloat_digit_start [OF f(2), of t]
  have "parseFloat (format_digits k s n) = Fin x"
    by (simp add: q_def)
  then show ?thesis
    by (simp only: str)
qed

section \<open>Stored records can be edited and resubmitted\<close>

lemma representable_round_pos: "0 < q \<Longrightarrow> representable (round_pos q)"
  using round_pos_cases [of q] by auto

lemma representable_js_neg: "representable x \<Longrightarrow> representable (js_neg x)"
  by (cases x) auto

lemma representable_to_number: "representable (to_number q)"
  by (simp add: to_number_def representable_round_pos representable_js_neg)

lemma representable_parseFloat: "representable (parseFloat t)"
  by (simp add: parseFloat_def Let_def representable_to_number representable_js_neg
      split: option.splits)

lemma positive_representable:
  assumes "positive x" and "representable x"
  shows "x = PosInf \<or> (\<exists>v. x = Fin v \<and> binary64 v)"
proof (cases x)
  case (Fin v)
  with assms have "0 < v" "v = 0 \<or> binary64 v \<or> binary64 (- v)" by simp_all
  moreover have "\<not> binary64 (- v)" if "0 < v"
    using binary64_pos [of "- v"] that by auto
  ultimately show ?thesis using Fin by auto
qed (use assms in auto)

lemma round_trips_positive_representable:
  assumes "positive x" and "representable x"
  shows "round_trips x" and "round_trips (js_ceil x)" and "js_ceil (js_ceil x) = js_ceil x"
proof -
  have inf: "parseFloat (toString PosInf) = PosInf"
    by (simp add: parseFloat_values)
  from positive_representable [OF assms] show "round_trips x"
    using assms(1) inf by (auto simp: round_trips_def parseFloat_toString_binary64 simp del: toString.simps)
  from positive_representable [OF assms] show "round_trips (js_ceil x)"
    using positive_js_ceil [OF assms(1)] inf
    by (auto simp: round_trips_def parseFloat_toString_binary64 binary64_ceiling
        simp del: toString.simps)
  show "js_ceil (js_ceil x) = js_ceil x"
    by (cases x) simp_all
qed

lemma editable_new_record:
  assumes "fst (validateForm fd)" and "i \<noteq> []"
  shows "editable \<lparr>id_s = i,
                   length_s = js_ceil (parseFloat (length_f fd)),
                   width_s = js_ceil (parseFloat (width_f fd)),
                   height_s = js_ceil (parseFloat (height_f fd)),
                   weight_s = parseFloat (weight_f fd),
                   reference_s = reference_f fd\<rparr>"
  using assms round_trips_positive_representable [OF _ representable_parseFloat]
  by (simp add: editable_def validateForm_true_iff)

lemma dispatch_preserves_editable:
  assumes "\<forall>r \<in> set (shipments s). editable r" and "enabled ev s"
  shows "\<forall>r \<in> set (shipments (snd (dispatch ev s))). editable r"
proof (cases ev)
  case (Submit nid)
  show ?thesis
  proof (cases "fst (validateForm (formData s))")
    case False
    with Submit assms show ?thesis by (simp add: handleAddShipment_rejected)
  next
    case True
    show ?thesis
    proof (cases "truthy (editingId s)")
      case False
      with Submit assms(2) have "nid \<noteq> []" by simp
      with True have "editable \<lparr>id_s = nid,
                   length_s = js_ceil (parseFloat (length_f (formData s))),
                   width_s = js_ceil (parseFloat (width_f (formData s))),
                   height_s = js_ceil (parseFloat (height_f (formData s))),
                   weight_s = parseFloat (weight_f (formData s)),
                   reference_s = reference_f (formData s)\<rparr>"
        by (rule editable_new_record)
      with True False Submit assms(1) show ?thesis
        by (simp add: handleAddShipment_add)
    next
      case truthy: True
      then obtain i where i: "editingId s = Some i" "i \<noteq> []"
        by (auto simp: truthy_def split: option.splits)
      with True have "editable \<lparr>id_s = i,
                   length_s = js_ceil (parseFloat (length_f (formData s))),
                   width_s = js_ceil (parseFloat (width_f (formData s))),
                   height_s = js_ceil (parseFloat (height_f (formData s))),
                   weight_s = parseFloat (weight_f (formData s)),
                   reference_s = reference_f (formData s)\<rparr>"
        by (intro editable_new_record)
      with True i Submit assms(1) show ?thesis
        by (auto simp add: handleAddShipment_update)
    qed
  qed
next
  case (ClearAll c)
  with assms show ?thesis by (simp add: handleClearAll_def)
qed (use assms in \<open>simp_all add: handleInputChange_def handleEdit_def handleDelete_def handleCancel_def\<close>)

lemma reachable_editable: "reachable s \<Longrightarrow> \<forall>r \<in> set (shipments s). editable r"
proof (induction rule: reachable.induct)
  case reachable_initial
  show ?case by (simp add: initial_def)
next
  case (reachable_step s ev)
  from reachable_step.IH reachable_step.hyps(2) show ?case
    by (rule dispatch_preserves_editable)
qed

lemma map_replace_same:
  assumes "distinct (map id_s xs)" and "r \<in> set xs"
  shows "map (\<lambda>x. if id_s x = id_s r then r else x) xs = xs"
proof -
  have "x = r" if "x \<in> set xs" "id_s x = id_s r" for x
    using that assms by (meson distinct_map inj_onD)
  then show ?thesis
    by (intro map_idI) auto
qed

lemma edit_then_submit:
  assumes "reachable s" and "r \<in> set (shipments s)"
  shows "fst (validateForm (formData (snd (handleEdit r s))))"
    and "handleAddShipment nid (snd (handleEdit r s)) =
          ([Toast_success ''Package updated''], s\<lparr>editingId := None, formData := empty_form\<rparr>)"
proof -
  let ?s1 = "snd (handleEdit r s)"
  from reachable_editable [OF assms(1)] assms(2) have ed: "editable r" by blast
  then have rt: "parseFloat (toString (length_s r)) = length_s r"
    "parseFloat (toString (width_s r)) = width_s r"
    "parseFloat (toString (height_s r)) = height_s r"
    "parseFloat (toString (weight_s r)) = weight_s r"
    and pos: "positive (length_s r)" "positive (width_s r)" "positive (height_s r)"
      "positive (weight_s r)"
    and ceil: "js_ceil (length_s r) = length_s r" "js_ceil (width_s r) = width_s r"
      "js_ceil (height_s r) = height_s r"
    and nonempty: "id_s r \<noteq> []"
    by (simp_all add: editable_def round_trips_def)
  have fd: "formData ?s1 = \<lparr>length_f = toString (length_s r), width_f = toString (width_s r),
      height_f = toString (height_s r), weight_f = toString (weight_s r),
      reference_f = reference_s r\<rparr>"
    and eid: "editingId ?s1 = Some (id_s r)"
    and same: "shipments ?s1 = shipments s"
    by (simp_all add: handleEdit_def)
  show valid: "fst (validateForm (formData ?s1))"
    by (simp add: validateForm_true_iff fd rt pos del: toString.simps)
  have new: "\<lparr>id_s = id_s r,
      length_s = js_ceil (parseFloat (length_f (formData ?s1))),
      width_s = js_ceil (parseFloat (width_f (formData ?s1))),
      height_s = js_ceil (parseFloat (height_f (formData ?s1))),
      weight_s = parseFloat (weight_f (formData ?s1)),
      reference_s = reference_f (formData ?s1)\<rparr> = r"
    by (simp add: fd rt ceil del: toString.simps)
  have "map (\<lambda>x. if id_s x = id_s r then r else x) (shipments s) = shipments s"
    using reachable_distinct [OF assms(1)] assms(2) by (rule map_replace_same)
  then show "handleAddShipment nid ?s1 =
      ([Toast_success ''Package updated''], s\<lparr>editingId := None, formData := empty_form\<rparr>)"
    unfolding handleAddShipment_update [OF valid eid nonempty] new
    by (simp add: same handleEdit_def)
qed

section \<open>Drafts the page can hold, and identifiers\<close>










lemma fresh_id_enabled: "enabled ev s \<Longrightarrow> fresh_id ev s"
  by (cases ev) auto

lemma dispatch_preserves_distinct_fresh:
  assumes "distinct (map id_s (shipments s))" and "fresh_id ev s"
  shows "distinct (map id_s (shipments (snd (dispatch ev s))))"
proof (cases ev)
  case (Submit nid)
  show ?thesis
  proof (cases "fst (validateForm (formData s))")
    case False
    with Submit assms show ?thesis by (simp add: handleAddShipment_rejected)
  next
    case True
    show ?thesis
    proof (cases "truthy (editingId s)")
      case False
      with True Submit assms show ?thesis
        by (simp add: handleAddShipment_add)
    next
      case truthy: True
      then obtain i where "editingId s = Some i" "i \<noteq> []"
        by (auto simp: truthy_def split: option.splits)
      with True Submit assms show ?thesis
        by (simp add: handleAddShipment_update map_replace_ids del: map_map)
    qed
  qed
next
  case (Delete i)
  with assms show ?thesis by (simp add: handleDelete_def distinct_map_filter)
next
  case (ClearAll c)
  with assms show ?thesis by (simp add: handleClearAll_def)
qed (use assms in \<open>simp_all add: handleInputChange_def handleEdit_def handleCancel_def\<close>)

lemma run_positive:
  "\<forall>r \<in> set (shipments s). positive_record r \<Longrightarrow>
   \<forall>r \<in> set (shipments (run evs s)). positive_record r"
proof (induction evs arbitrary: s)
  case Nil
  then show ?case by simp
next
  case (Cons ev evs)
  from Cons.prems have "\<forall>r \<in> set (shipments (snd (dispatch ev s))). positive_record r"
    by (rule dispatch_preserves_positive)
  then show ?case using Cons.IH by simp
qed

lemma run_distinct:
  "distinct (map id_s (shipments s)) \<Longrightarrow> fresh_ids evs s \<Longrightarrow>
   distinct (map id_s (shipments (run evs s)))"
proof (induction evs arbitrary: s)
  case Nil
  then show ?case by simp
next
  case (Cons ev evs)
  from Cons.prems have "distinct (map id_s (shipments (snd (dispatch ev s))))"
    by (simp add: dispatch_preserves_distinct_fresh)
  with Cons show ?case by simp
qed

lemma example_run_twice:
  "run (example_events @ example_events) initial =
     \<lparr>shipments = [example_record, example_record], editingId = None, formData = empty_form\<rparr>"
  by (simp add: run_append example_run)
    (simp add: example_events_def example_store_def example_record_def
      handleInputChange_def handleAddShipment_def validateForm_def Let_def isNaN_def
      truthy_def empty_form_def parseFloat_values)

lemma number_input_values:
  "number_input_value ''0''" "number_input_value ''12''" "number_input_value ''8''"
  "number_input_value ''6''" "number_input_value ''5.5''"
  by (simp_all add: number_input_value_def valid_floating_point_def valid_exponent_def
      is_digit_def parseFloat_values)

lemma example_deliverable: "deliverable example_events initial"
  by (simp add: example_events_def number_input_values)

lemma fresh_ids_enabled: "all_enabled evs s \<Longrightarrow> fresh_ids evs s"
  by (induction evs arbitrary: s) (auto simp: fresh_id_enabled)

lemma deliverable_append:
  "deliverable (evs @ evs') s \<longleftrightarrow> deliverable evs s \<and> deliverable evs' (run evs s)"
  by (induction evs arbitrary: s) auto

section \<open>The claims\<close>



text \<open>
  C2. Submitting, while not editing, a draft whose four numeric fields parse to positive
  Numbers makes the collection one longer: the record appended carries the identifier
  \<open>nanoid()\<close> returned, the ceilings of the parsed length, width and height, the parsed
  weight as it is, and the draft's reference string.
\<close>

theorem add_appends_ceiled_record:
  assumes "\<not> truthy (editingId s)"
    and "positive (parseFloat (length_f (formData s)))"
    and "positive (parseFloat (width_f (formData s)))"
    and "positive (parseFloat (height_f (formData s)))"
    and "positive (parseFloat (weight_f (formData s)))"
  shows "length (shipments (snd (handleAddShipment nid s))) = length (shipments s) + 1
    \<and> shipments (snd (handleAddShipment nid s)) =
        shipments s @
          [\<lparr>id_s = nid,
            length_s = js_ceil (parseFloat (length_f (formData s))),
            width_s = js_ceil (parseFloat (width_f (formData s))),
            height_s = js_ceil (parseFloat (height_f (formData s))),
            weight_s = parseFloat (weight_f (formData s)),
            reference_s = reference_f (formData s)\<rparr>]"
proof -
  from assms(2-5) have "fst (validateForm (formData s))"
    by (simp add: validateForm_true_iff)
  with assms(1) show ?thesis
    by (simp add: handleAddShipment_add)
qed

text \<open>
  Witness for C2: with a record already stored, the draft \<open>12.3\<close>, \<open>8\<close>, \<open>6\<close>, \<open>5.5\<close>
  is appended as 13 by 8 by 6 with weight 5.5.
\<close>

theorem add_appends_ceiled_record_witness:
  "\<not> truthy (editingId (example_store\<lparr>formData := example_draft\<lparr>length_f := ''12.3''\<rparr>\<rparr>))
   \<and> positive (parseFloat ''12.3'') \<and> positive (parseFloat ''8'')
   \<and> positive (parseFloat ''6'') \<and> positive (parseFloat ''5.5'')
   \<and> length (shipments (snd (handleAddShipment ''Uakgb_J5''
          (example_store\<lparr>formData := example_draft\<lparr>length_f := ''12.3''\<rparr>\<rparr>)))) = 2
   \<and> shipments (snd (handleAddShipment ''Uakgb_J5''
          (example_store\<lparr>formData := example_draft\<lparr>length_f := ''12.3''\<rparr>\<rparr>))) =
       [example_record,
        \<lparr>id_s = ''Uakgb_J5'', length_s = Fin 13, width_s = Fin 8, height_s = Fin 6,
         weight_s = Fin (11 / 2), reference_s = ''INV-12345''\<rparr>]"
proof -
  let ?s = "example_store\<lparr>formData := example_draft\<lparr>length_f := ''12.3''\<rparr>\<rparr>"
  have idle: "\<not> truthy (editingId ?s)"
    by (simp add: example_store_def truthy_def)
  have pos: "positive (parseFloat (length_f (formData ?s)))"
    "positive (parseFloat (width_f (formData ?s)))"
    "positive (parseFloat (height_f (formData ?s)))"
    "positive (parseFloat (weight_f (formData ?s)))"
    by (simp_all add: example_draft_def parseFloat_values)
  have ceil: "\<lceil>3462142213541069 / 281474976710656 :: rat\<rceil> = 13"
    by (simp add: ceiling_unique)
  from add_appends_ceiled_record [OF idle pos, of "''Uakgb_J5''"] idle pos ceil
  show ?thesis
    by (simp add: example_store_def example_draft_def parseFloat_values)
qed

text \<open>
  C3. A valid submit while editing \<open>i\<close>, in a collection that holds a record with
  identifier \<open>i\<close>, keeps the length of the collection and the identifier at every
  position; the record with identifier \<open>i\<close> is replaced, where it stands, by the record
  built from the draft, which carries \<open>i\<close> again; every other record is unchanged.
\<close>

theorem update_replaces_in_place:
  assumes "editingId s = Some i" and "i \<noteq> []"
    and "fst (validateForm (formData s))"
    and "i \<in> set (map id_s (shipments s))"
  shows "length (shipments (snd (handleAddShipment nid s))) = length (shipments s)
    \<and> map id_s (shipments (snd (handleAddShipment nid s))) = map id_s (shipments s)
    \<and> (\<forall>k < length (shipments s).
          shipments (snd (handleAddShipment nid s)) ! k =
            (if id_s (shipments s ! k) = i then
               \<lparr>id_s = i,
                length_s = js_ceil (parseFloat (length_f (formData s))),
                width_s = js_ceil (parseFloat (width_f (formData s))),
                height_s = js_ceil (parseFloat (height_f (formData s))),
                weight_s = parseFloat (weight_f (formData s)),
                reference_s = reference_f (formData s)\<rparr>
             else shipments s ! k))
    \<and> (\<exists>k < length (shipments s). id_s (shipments s ! k) = i
          \<and> id_s (shipments (snd (handleAddShipment nid s)) ! k) = i)"
proof -
  let ?new = "\<lparr>id_s = i,
                length_s = js_ceil (parseFloat (length_f (formData s))),
                width_s = js_ceil (parseFloat (width_f (formData s))),
                height_s = js_ceil (parseFloat (height_f (formData s))),
                weight_s = parseFloat (weight_f (formData s)),
                reference_s = reference_f (formData s)\<rparr>"
  have after: "shipments (snd (handleAddShipment nid s)) =
      map (\<lambda>r. if id_s r = i then ?new else r) (shipments s)"
    using assms(1-3) by (simp add: handleAddShipment_update)
  have ids: "map id_s (shipments (snd (handleAddShipment nid s))) = map id_s (shipments s)"
    unfolding after by (rule map_replace_ids) simp
  from assms(4) obtain k where k: "k < length (shipments s)" "id_s (shipments s ! k) = i"
    by (auto simp: in_set_conv_nth)
  with after have "id_s (shipments (snd (handleAddShipment nid s)) ! k) = i"
    by simp
  with k have "\<exists>k < length (shipments s). id_s (shipments s ! k) = i
          \<and> id_s (shipments (snd (handleAddShipment nid s)) ! k) = i"
    by blast
  with ids show ?thesis
    by (simp add: after)
qed

text \<open>
  Witness for C3: of two stored records the second is being edited; submitting the
  draft \<open>12.3\<close>, \<open>8\<close>, \<open>6\<close>, \<open>5.5\<close> rewrites the second and leaves the first.
\<close>

theorem update_replaces_in_place_witness:
  "editingId \<lparr>shipments = [example_record, example_record\<lparr>id_s := ''Uakgb_J5''\<rparr>],
              editingId = Some ''Uakgb_J5'',
              formData = example_draft\<lparr>length_f := ''12.3''\<rparr>\<rparr> = Some ''Uakgb_J5''
   \<and> ''Uakgb_J5'' \<noteq> []
   \<and> fst (validateForm (example_draft\<lparr>length_f := ''12.3''\<rparr>))
   \<and> ''Uakgb_J5'' \<in> set (map id_s [example_record, example_record\<lparr>id_s := ''Uakgb_J5''\<rparr>])
   \<and> shipments (snd (handleAddShipment ''x''
        \<lparr>shipments = [example_record, example_record\<lparr>id_s := ''Uakgb_J5''\<rparr>],
         editingId = Some ''Uakgb_J5'',
         formData = example_draft\<lparr>length_f := ''12.3''\<rparr>\<rparr>)) =
      [example_record, example_record\<lparr>id_s := ''Uakgb_J5'', length_s := Fin 13\<rparr>]"
proof -
  let ?s = "\<lparr>shipments = [example_record, example_record\<lparr>id_s := ''Uakgb_J5''\<rparr>],
             editingId = Some ''Uakgb_J5'',
             formData = example_draft\<lparr>length_f := ''12.3''\<rparr>\<rparr>"
  have valid: "fst (validateForm (formData ?s))"
    by (simp add: validateForm_true_iff example_draft_def parseFloat_values)
  have present: "''Uakgb_J5'' \<in> set (map id_s (shipments ?s))"
    by simp
  have ceil: "\<lceil>3462142213541069 / 281474976710656 :: rat\<rceil> = 13"
    by (simp add: ceiling_unique)
  have two: "(\<forall>k < Suc (Suc 0). P k) \<longleftrightarrow> P 0 \<and> P 1" for P
    by (auto simp: less_Suc_eq)
  from update_replaces_in_place [of ?s "''Uakgb_J5''" "''x''"] valid present
  have "shipments (snd (handleAddShipment ''x'' ?s)) ! 0 = example_record"
    and "shipments (snd (handleAddShipment ''x'' ?s)) ! 1 =
         example_record\<lparr>id_s := ''Uakgb_J5'', length_s := Fin 13\<rparr>"
    and "length (shipments (snd (handleAddShipment ''x'' ?s))) = 2"
    by (simp_all add: two example_record_def example_draft_def parseFloat_values ceil)
  then have "shipments (snd (handleAddShipment ''x'' ?s)) =
      [example_record, example_record\<lparr>id_s := ''Uakgb_J5'', length_s := Fin 13\<rparr>]"
    by (auto simp add: list_eq_iff_nth_eq less_Suc_eq numeral_2_eq_2)
  with valid show ?thesis by simp
qed



text \<open>
  C5. Deleting the record that is being edited ends the editing but does not clear the
  draft, unlike the two other ways out of editing (Cancel and a successful update, which
  both reset the form). In the state reached by adding the example record and clicking
  its Edit button, deleting that record leaves all five draft fields filled, where
  Cancel empties them; the next submit then stores the deleted record again under a new
  identifier.
\<close>

theorem delete_while_editing_draft_not_cleared:
  "reachable (run (example_events @ [Edit example_record]) initial)
   \<and> editingId (run (example_events @ [Edit example_record]) initial) = Some ''V1StGXR8''
   \<and> editingId (snd (handleDelete ''V1StGXR8''
        (run (example_events @ [Edit example_record]) initial))) = None
   \<and> shipments (snd (handleDelete ''V1StGXR8''
        (run (example_events @ [Edit example_record]) initial))) = []
   \<and> formData (snd (handleDelete ''V1StGXR8''
        (run (example_events @ [Edit example_record]) initial)))
      = \<lparr>length_f = ''12'', width_f = ''8'', height_f = ''6'', weight_f = ''5.5'',
         reference_f = ''INV-12345''\<rparr>
   \<and> formData (snd (handleDelete ''V1StGXR8''
        (run (example_events @ [Edit example_record]) initial))) \<noteq> empty_form
   \<and> formData (snd (handleCancel
        (run (example_events @ [Edit example_record]) initial))) = empty_form
   \<and> shipments (snd (handleAddShipment ''Uakgb_J5'' (snd (handleDelete ''V1StGXR8''
        (run (example_events @ [Edit example_record]) initial)))))
      = [example_record\<lparr>id_s := ''Uakgb_J5''\<rparr>]"
proof -
  have r: "run (example_events @ [Edit example_record]) initial = example_editing"
    by (simp add: run_append example_run example_edit)
  have "reachable (run example_events initial)"
    by (rule reachable_run [OF reachable_initial example_enabled])
  then have "reachable (snd (dispatch (Edit example_record) (run example_events initial)))"
    by (rule reachable_step) (simp add: example_run example_store_def)
  then have "reachable example_editing"
    by (simp add: example_run example_edit)
  moreover have "snd (handleDelete ''V1StGXR8'' example_editing) =
      \<lparr>shipments = [], editingId = None, formData = example_draft\<rparr>"
    by (simp add: handleDelete_def example_editing_def example_record_def)
  moreover have "shipments (snd (handleAddShipment ''Uakgb_J5''
      \<lparr>shipments = [], editingId = None, formData = example_draft\<rparr>))
      = [example_record\<lparr>id_s := ''Uakgb_J5''\<rparr>]"
    by (simp add: handleAddShipment_def validateForm_def Let_def isNaN_def truthy_def
        example_draft_def example_record_def parseFloat_values)
  ultimately show ?thesis
    unfolding r
    by (simp add: example_editing_def example_draft_def empty_form_def handleCancel_def)
qed

text \<open>
  C6. Cancel ends the editing, resets the five draft fields to the empty string and
  leaves the shipment collection untouched.
\<close>

theorem cancel_clears_draft_only:
  "editingId (snd (handleCancel s)) = None
   \<and> formData (snd (handleCancel s)) =
       \<lparr>length_f = [], width_f = [], height_f = [], weight_f = [], reference_f = []\<rparr>
   \<and> shipments (snd (handleCancel s)) = shipments s"
  by (simp add: handleCancel_def empty_form_def)

text \<open>
  Witness for C6: while the example record is being edited, with the draft filled from
  it, Cancel empties the draft and the record stays in the collection.
\<close>

theorem cancel_clears_draft_only_witness:
  "truthy (editingId example_editing)
   \<and> formData example_editing = example_draft
   \<and> editingId (snd (handleCancel example_editing)) = None
   \<and> formData (snd (handleCancel example_editing)) =
       \<lparr>length_f = [], width_f = [], height_f = [], weight_f = [], reference_f = []\<rparr>
   \<and> shipments (snd (handleCancel example_editing)) = [example_record]"
  using cancel_clears_draft_only [of example_editing]
  by (simp add: example_editing_def truthy_def)

text \<open>
  C7. On the empty collection the export shows one error toast and does nothing else:
  \<open>generateCSV\<close> is not called, no download is started and the state is unchanged.
\<close>

theorem export_of_empty_collection:
  assumes "shipments s = []"
  shows "handleGenerateCSV generateCSV now s =
           ([Toast_error ''Add at least one package to generate CSV''], s)"
  using assms by (simp add: handleGenerateCSV_def)

text \<open>Witness for C7: the initial state, whatever the formatter and the clock.\<close>

theorem export_of_empty_collection_witness:
  "shipments initial = []
   \<and> handleGenerateCSV (\<lambda>xs. ''length,width,height,weight,reference'') ''2024-05-01T10:00:00.000Z''
        initial
      = ([Toast_error ''Add at least one package to generate CSV''], initial)"
proof -
  have e: "shipments initial = []"
    by (simp add: initial_def)
  from export_of_empty_collection [OF e] e show ?thesis
    by simp
qed

text \<open>
  C8. The page has one \<open>editingId\<close> cell, so with pairwise distinct identifiers at most
  one record of the collection is the one being edited. Clicking Edit on a record \<open>r\<close>
  while \<open>i\<close> is being edited leads in this one step to editing \<open>r\<close>: \<open>editingId\<close> is
  the identifier of \<open>r\<close> and the draft holds the values of \<open>r\<close>, its four numbers
  converted to strings; the collection is not touched.
\<close>

theorem edit_while_editing_redirects:
  assumes "editingId s = Some i" and "distinct (map id_s (shipments s))"
  shows "editingId (snd (handleEdit r s)) = Some (id_s r)
    \<and> formData (snd (handleEdit r s)) =
        \<lparr>length_f = toString (length_s r), width_f = toString (width_s r),
         height_f = toString (height_s r), weight_f = toString (weight_s r),
         reference_f = reference_s r\<rparr>
    \<and> shipments (snd (handleEdit r s)) = shipments s
    \<and> length (filter (\<lambda>x. Some (id_s x) = editingId s) (shipments s)) \<le> 1
    \<and> length (filter (\<lambda>x. Some (id_s x) = editingId (snd (handleEdit r s)))
                 (shipments (snd (handleEdit r s)))) \<le> 1"
  using assms filter_distinct_at_most_one [of id_s "shipments s"]
  by (simp add: handleEdit_def)

text \<open>
  Witness for C8: with two records stored and the first being edited, Edit on the second
  moves the editing to it and fills the draft with its values.
\<close>

theorem edit_while_editing_redirects_witness:
  "editingId (example_editing\<lparr>shipments := [example_record,
        \<lparr>id_s = ''Uakgb_J5'', length_s = Fin 6, width_s = Fin 6, height_s = Fin 8,
         weight_s = Fin 12, reference_s = ''SO-67890''\<rparr>]\<rparr>) = Some ''V1StGXR8''
   \<and> distinct (map id_s [example_record,
        \<lparr>id_s = ''Uakgb_J5'', length_s = Fin 6, width_s = Fin 6, height_s = Fin 8,
         weight_s = Fin 12, reference_s = ''SO-67890''\<rparr>])
   \<and> editingId (snd (handleEdit
        \<lparr>id_s = ''Uakgb_J5'', length_s = Fin 6, width_s = Fin 6, height_s = Fin 8,
         weight_s = Fin 12, reference_s = ''SO-67890''\<rparr>
        (example_editing\<lparr>shipments := [example_record,
           \<lparr>id_s = ''Uakgb_J5'', length_s = Fin 6, width_s = Fin 6, height_s = Fin 8,
            weight_s = Fin 12, reference_s = ''SO-67890''\<rparr>]\<rparr>))) = Some ''Uakgb_J5''
   \<and> formData (snd (handleEdit
        \<lparr>id_s = ''Uakgb_J5'', length_s = Fin 6, width_s = Fin 6, height_s = Fin 8,
         weight_s = Fin 12, reference_s = ''SO-67890''\<rparr>
        (example_editing\<lparr>shipments := [example_record,
           \<lparr>id_s = ''Uakgb_J5'', length_s = Fin 6, width_s = Fin 6, height_s = Fin 8,
            weight_s = Fin 12, reference_s = ''SO-67890''\<rparr>]\<rparr>))) =
       \<lparr>length_f = ''6'', width_f = ''6'', height_f = ''8'', weight_f = ''12'',
        reference_f = ''SO-67890''\<rparr>"
proof -
  let ?r = "\<lparr>id_s = ''Uakgb_J5'', length_s = Fin 6, width_s = Fin 6, height_s = Fin 8,
             weight_s = Fin 12, reference_s = ''SO-67890''\<rparr>"
  let ?s = "example_editing\<lparr>shipments := [example_record, ?r]\<rparr>"
  have editing: "editingId ?s = Some ''V1StGXR8''"
    by (simp add: example_editing_def)
  have d: "distinct (map id_s (shipments ?s))"
    by (simp add: example_record_def)
  from edit_while_editing_redirects [OF editing d, of ?r] editing d show ?thesis
    by (simp add: toString_values del: toString.simps)
qed

text \<open>
  C9 (as amended). In every state reached from the initial one by any sequence of the
  user's actions, every stored record has length, width, height and weight greater
  than zero, whatever \<open>nanoid()\<close> returns. No two stored records share an identifier
  as long as each identifier \<open>nanoid()\<close> returned for an add was not carried by a
  stored record at that moment; the page itself never checks this.
\<close>

theorem stored_positive_and_distinct_when_fresh:
  "(\<forall>r \<in> set (shipments (run evs initial)).
      positive (length_s r) \<and> positive (width_s r) \<and> positive (height_s r)
      \<and> positive (weight_s r))
   \<and> (fresh_ids evs initial \<longrightarrow> distinct (map id_s (shipments (run evs initial))))"
proof -
  have "\<forall>r \<in> set (shipments (run evs initial)). positive_record r"
    by (rule run_positive) (simp add: initial_def)
  moreover have "distinct (map id_s (shipments (run evs initial)))" if "fresh_ids evs initial"
    using _ that by (rule run_distinct) (simp add: initial_def)
  ultimately show ?thesis
    by (simp add: positive_record_def)
qed

text \<open>
  Witness for C9: typing the example draft and submitting it, with a fresh identifier,
  stores one record, 12 by 8 by 6 with weight 5.5.
\<close>

theorem stored_positive_and_distinct_when_fresh_witness:
  "fresh_ids example_events initial
   \<and> shipments (run example_events initial) = [example_record]
   \<and> positive (length_s example_record) \<and> positive (width_s example_record)
   \<and> positive (height_s example_record) \<and> positive (weight_s example_record)
   \<and> distinct (map id_s (shipments (run example_events initial)))"
proof -
  have f: "fresh_ids example_events initial"
    by (rule fresh_ids_enabled [OF example_enabled])
  have st: "shipments example_store = [example_record]"
    by (simp add: example_store_def)
  from stored_positive_and_distinct_when_fresh [of example_events] f show ?thesis
    by (simp add: example_run st)
qed

text \<open>
  Counterexample to C9 as stated: the example draft is typed and submitted twice and
  \<open>nanoid()\<close> returns the same identifier both times; the second record is appended
  all the same and the collection holds two records with one identifier.
\<close>

theorem repeated_nanoid_breaks_distinct:
  "deliverable (example_events @ example_events) initial
   \<and> shipments (run (example_events @ example_events) initial)
       = [example_record, example_record]
   \<and> \<not> distinct (map id_s (shipments (run (example_events @ example_events) initial)))"
proof -
  have "deliverable example_events example_store"
    by (simp add: example_events_def number_input_values)
  then have "deliverable (example_events @ example_events) initial"
    by (simp add: deliverable_append example_deliverable example_run)
  then show ?thesis
    by (simp add: example_run_twice)
qed

text \<open>
  C10. In a reachable state, clicking Edit on a stored record and submitting the draft
  as it was filled in is accepted as an update and changes nothing in the collection:
  the record written is the record that was there (same identifier, same dimensions,
  each the ceiling of what its own string form parses to, same weight, same reference).
\<close>

theorem edit_then_submit_restores_record:
  assumes "reachable s" and "r \<in> set (shipments s)"
  shows "fst (validateForm (formData (snd (handleEdit r s))))
    \<and> fst (handleAddShipment nid (snd (handleEdit r s))) = [Toast_success ''Package updated'']
    \<and> shipments (snd (handleAddShipment nid (snd (handleEdit r s)))) = shipments s
    \<and> \<lparr>id_s = id_s r,
        length_s = js_ceil (parseFloat (toString (length_s r))),
        width_s = js_ceil (parseFloat (toString (width_s r))),
        height_s = js_ceil (parseFloat (toString (height_s r))),
        weight_s = parseFloat (toString (weight_s r)),
        reference_s = reference_s r\<rparr> = r"
proof -
  from reachable_editable [OF assms(1)] assms(2) have "editable r" by blast
  then have "\<lparr>id_s = id_s r,
        length_s = js_ceil (parseFloat (toString (length_s r))),
        width_s = js_ceil (parseFloat (toString (width_s r))),
        height_s = js_ceil (parseFloat (toString (height_s r))),
        weight_s = parseFloat (toString (weight_s r)),
        reference_s = reference_s r\<rparr> = r"
    by (simp add: editable_def round_trips_def del: toString.simps)
  with edit_then_submit(1) [OF assms] edit_then_submit(2) [OF assms, of nid] show ?thesis
    by simp
qed

text \<open>
  Witness for C10: the example record, stored by typing and submitting the example
  draft, is put into the form with Edit and submitted again; the collection still holds
  exactly that record.
\<close>

theorem edit_then_submit_restores_record_witness:
  "reachable (run example_events initial)
   \<and> example_record \<in> set (shipments (run example_events initial))
   \<and> formData (snd (handleEdit example_record (run example_events initial))) = example_draft
   \<and> fst (handleAddShipment ''Uakgb_J5''
          (snd (handleEdit example_record (run example_events initial))))
       = [Toast_success ''Package updated'']
   \<and> shipments (snd (handleAddShipment ''Uakgb_J5''
          (snd (handleEdit example_record (run example_events initial)))))
       = [example_record]"
proof -
  have r: "reachable (run example_events initial)"
    by (rule reachable_run [OF reachable_initial example_enabled])
  have m: "example_record \<in> set (shipments (run example_events initial))"
    by (simp add: example_run example_store_def)
  have st: "shipments example_store = [example_record]"
    by (simp add: example_store_def)
  from edit_then_submit_restores_record [OF r m, of "''Uakgb_J5''"] r m show ?thesis
    by (simp add: example_run example_edit example_editing_def st)
qed

end
